theory Spec2Isabelle
  imports Main
begin

section \<open>Strings\<close>

text \<open>
  A JavaScript string is a sequence of UTF-16 code units, and \<open>length\<close>, indexing,
  \<open>indexOf\<close> and \<open>slice\<close> all count code units. The model takes a string as a list of
  \<^typ>\<open>char\<close>, one element per code unit, which covers the code units below 256; every
  character the code compares with (braces, brackets, the double quote, the backslash) is
  among them.
\<close>

type_synonym jstring = string

abbreviation DQUOTE :: char where "DQUOTE \<equiv> CHR 0x22"
abbreviation BACKSLASH :: char where "BACKSLASH \<equiv> CHR 0x5C"

text \<open>\<open>String.prototype.indexOf\<close> with a one-character needle; \<open>None\<close> stands for \<open>-1\<close>.\<close>

primrec indexOf :: "jstring \<Rightarrow> char \<Rightarrow> nat option" where
  "indexOf [] c = None"
| "indexOf (x # xs) c = (if x = c then Some 0 else map_option Suc (indexOf xs c))"

text \<open>\<open>text.slice(a, b)\<close> for \<open>0 \<le> a\<close> and \<open>0 \<le> b\<close>.\<close>

definition slice :: "jstring \<Rightarrow> nat \<Rightarrow> nat \<Rightarrow> jstring" where
  "slice text a b = take (b - a) (drop a text)"

section \<open>The JSON extractor (internal/json.ts)\<close>

datatype reason = no_json | invalid_json

text \<open>
  \<open>JsonExtractionResult\<close>: \<open>{ok: true, jsonText, value}\<close> or
  \<open>{ok: false, reason, message, jsonText?}\<close>.
\<close>

datatype 'v JsonExtractionResult =
    Ok jstring 'v
  | NotOk reason jstring "jstring option"

definition findJsonStartIndex :: "jstring \<Rightarrow> nat option" where
  "findJsonStartIndex text =
     (let obj = indexOf text (CHR ''{'');
          arr = indexOf text (CHR ''['')
      in case obj of
           None \<Rightarrow> (case arr of None \<Rightarrow> None | Some a \<Rightarrow> Some a)
         | Some ob \<Rightarrow> (case arr of None \<Rightarrow> Some ob | Some a \<Rightarrow> Some (min ob a)))"

text \<open>
  The \<open>for\<close> loop of \<open>extractJsonText\<close>, one call per iteration: \<open>i\<close> is the loop
  index, \<open>inString\<close>, \<open>escaped\<close> and \<open>depth\<close> are the loop's variables, and a
  \<open>continue\<close> is the recursive call at \<open>i + 1\<close>.
\<close>

function extractJsonText_loop ::
  "jstring \<Rightarrow> nat \<Rightarrow> nat \<Rightarrow> bool \<Rightarrow> bool \<Rightarrow> int \<Rightarrow> jstring option" where
  "extractJsonText_loop text start i inString escaped depth =
     (if i < length text then
        (let ch = text ! i in
         if inString then
           (if escaped then extractJsonText_loop text start (i + 1) inString False depth
            else if ch = BACKSLASH then extractJsonText_loop text start (i + 1) inString True depth
            else if ch = DQUOTE then extractJsonText_loop text start (i + 1) False escaped depth
            else extractJsonText_loop text start (i + 1) inString escaped depth)
         else if ch = DQUOTE then extractJsonText_loop text start (i + 1) True escaped depth
         else if ch = CHR ''{'' \<or> ch = CHR ''['' then
           extractJsonText_loop text start (i + 1) inString escaped (depth + 1)
         else if ch = CHR ''}'' \<or> ch = CHR '']'' then
           (if depth - 1 = 0 then Some (slice text start (i + 1))
            else extractJsonText_loop text start (i + 1) inString escaped (depth - 1))
         else extractJsonText_loop text start (i + 1) inString escaped depth)
      else None)"
  by pat_completeness auto
termination
  by (relation "measure (\<lambda>(text, start, i, inString, escaped, depth). length text - i)") auto

declare extractJsonText_loop.simps [simp del]

definition extractJsonText :: "jstring \<Rightarrow> jstring option" where
  "extractJsonText text =
     (case findJsonStartIndex text of
        None \<Rightarrow> None
      | Some start \<Rightarrow> extractJsonText_loop text start start False False 0)"

text \<open>
  \<open>JSON.parse\<close> is the platform's decoder and a parameter of the model: \<open>Inr v\<close> is
  the decoded value, \<open>Inl m\<close> a thrown \<open>SyntaxError\<close> with message \<open>m\<close>. The test
  \<open>!jsonText\<close> holds for \<open>null\<close> and for the empty string.
\<close>

definition extractAndParseJson :: "(jstring \<Rightarrow> jstring + 'v) \<Rightarrow> jstring \<Rightarrow> 'v JsonExtractionResult" where
  "extractAndParseJson JSON_parse text =
     (case extractJsonText text of
        None \<Rightarrow> NotOk no_json ''No JSON object/array found in model output.'' None
      | Some jsonText \<Rightarrow>
          if jsonText = [] then NotOk no_json ''No JSON object/array found in model output.'' None
          else (case JSON_parse jsonText of
                  Inr v \<Rightarrow> Ok jsonText v
                | Inl m \<Rightarrow> NotOk invalid_json m (Some jsonText)))"

section \<open>The span scan as the specification words it\<close>

text \<open>
  The specification describes the scan by the state it tracks: a string-literal flag
  entered and left on an unescaped double quote, an escape flag set after a backslash
  inside a string and cleared after the next character, and a nesting depth incremented
  on an opener and decremented on a closer, both only outside string literals.
\<close>

record scan_state =
  in_string :: bool
  esc :: bool
  nesting :: int

definition spec_step :: "scan_state \<Rightarrow> char \<Rightarrow> scan_state" where
  "spec_step s ch =
     (if in_string s then
        (if esc s then s\<lparr>esc := False\<rparr>
         else if ch = BACKSLASH then s\<lparr>esc := True\<rparr>
         else if ch = DQUOTE then s\<lparr>in_string := False\<rparr>
         else s)
      else if ch = DQUOTE then s\<lparr>in_string := True\<rparr>
      else if ch = CHR ''{'' \<or> ch = CHR ''['' then s\<lparr>nesting := nesting s + 1\<rparr>
      else if ch = CHR ''}'' \<or> ch = CHR '']'' then s\<lparr>nesting := nesting s - 1\<rparr>
      else s)"

definition spec_initial :: scan_state where
  "spec_initial = \<lparr>in_string = False, esc = False, nesting = 0\<rparr>"

text \<open>The depth after the characters at positions \<open>start\<close> to \<open>i\<close> inclusive were consumed.\<close>

definition spec_depth_after :: "jstring \<Rightarrow> nat \<Rightarrow> nat \<Rightarrow> int" where
  "spec_depth_after text start i =
     nesting (foldl spec_step spec_initial (take (i + 1 - start) (drop start text)))"

text \<open>The candidate start: the first position holding \<open>{\<close> or \<open>[\<close>.\<close>

definition spec_start :: "jstring \<Rightarrow> nat option" where
  "spec_start text =
     List.find (\<lambda>i. text ! i = CHR ''{'' \<or> text ! i = CHR ''['') [0..<length text]"

text \<open>
  The span: from the start to the first position where the depth is back at zero,
  inclusive; absent when there is no start or the depth never returns to zero.
\<close>

definition spec_span :: "jstring \<Rightarrow> jstring option" where
  "spec_span text =
     (case spec_start text of
        None \<Rightarrow> None
      | Some start \<Rightarrow>
          (case List.find (\<lambda>i. spec_depth_after text start i = 0) [start..<length text] of
             None \<Rightarrow> None
           | Some e \<Rightarrow> Some (take (e + 1 - start) (drop start text))))"

section \<open>Trimming, joining, numbers as text\<close>

text \<open>
  \<open>String.prototype.trim\<close> removes white space and line terminators at both ends;
  among the code units below 256 these are the following.
\<close>

definition isWhiteSpace :: "char \<Rightarrow> bool" where
  "isWhiteSpace c =
     (c = CHR 0x09 \<or> c = CHR 0x0A \<or> c = CHR 0x0B \<or> c = CHR 0x0C \<or> c = CHR 0x0D
      \<or> c = CHR 0x20 \<or> c = CHR 0xA0)"

definition trim :: "jstring \<Rightarrow> jstring" where
  "trim s = rev (dropWhile isWhiteSpace (rev (dropWhile isWhiteSpace s)))"

text \<open>\<open>Array.prototype.join\<close> on an array of strings.\<close>

fun join :: "jstring list \<Rightarrow> jstring \<Rightarrow> jstring" where
  "join [] sep = []"
| "join [x] sep = x"
| "join (x # y # ys) sep = x @ sep @ join (y # ys) sep"

text \<open>
  A JavaScript number is modelled as an unbounded integer; converting an integer to a
  string gives its decimal digits (for magnitudes below \<open>10^21\<close>, which is where
  JavaScript switches to exponent notation).
\<close>

function show_nat :: "nat \<Rightarrow> jstring" where
  "show_nat n =
     (if n < 10 then [''0123456789'' ! n]
      else show_nat (n div 10) @ [''0123456789'' ! (n mod 10)])"
  by pat_completeness auto
termination
  by (relation "measure id") auto

declare show_nat.simps [simp del]

definition show_int :: "int \<Rightarrow> jstring" where
  "show_int i = (if i < 0 then CHR ''-'' # show_nat (nat (- i)) else show_nat (nat i))"

section \<open>The schema (zod) and the issue formatter\<close>

text \<open>
  An issue of a \<open>ZodError\<close>: a path of property names and array indices, and a message.
\<close>

datatype PathSegment = Key jstring | Index nat

datatype ZodIssue = ZodIssue (issue_path: "PathSegment list") (issue_message: jstring)

definition segment_text :: "PathSegment \<Rightarrow> jstring" where
  "segment_text seg = (case seg of Key k \<Rightarrow> k | Index n \<Rightarrow> show_nat n)"

definition formatZodIssues :: "ZodIssue list \<Rightarrow> jstring" where
  "formatZodIssues issues =
     join (map (\<lambda>issue.
                  let pth = (if issue_path issue \<noteq> []
                             then join (map segment_text (issue_path issue)) ''.''
                             else ''<root>'')
                  in ''- '' @ pth @ '': '' @ issue_message issue) issues) ''\<newline>''"

text \<open>
  The schema is an object of the zod library, outside this repository. The model takes
  from it what the code calls. \<open>safeParse\<close> is a function of the decoded value (\<open>None\<close>
  is JavaScript's \<open>undefined\<close>) that gives the validated data (\<open>Inr\<close>) or the issues of
  the \<open>ZodError\<close> (\<open>Inl\<close>). \<open>parse\<close> is the other entry into the schema, which
  \<open>run\<close> calls on its success path: it returns the validated data (\<open>Inr\<close>) or throws
  a \<open>ZodError\<close> (\<open>Inl\<close>, its issues). It is a call of its own: nothing in the model ties
  its result to what \<open>safeParse\<close> gave for the same value, so a schema whose validation
  depends on more than the value (a refinement or a transform with a state) is covered.
  \<open>zodSchemaToTypeScript\<close> is the text rendered for the schema under a given name,
  which is read off zod's internal description of the schema and is used by the prompts
  as an opaque text.
\<close>

record ('v, 'd) ZodSchema =
  safeParse :: "'v option \<Rightarrow> ZodIssue list + 'd"
  parse :: "'v option \<Rightarrow> ZodIssue list + 'd"
  zodSchemaToTypeScript :: "jstring \<Rightarrow> jstring"

section \<open>The tunnel (index.ts)\<close>

record TunnelOptions =
  maxRetries :: "int option"
  systemPrompt :: "jstring option"
  schemaName :: "jstring option"
  maxFailureOutputChars :: "int option"

text \<open>\<open>TunnelFailure\<close>, a union discriminated by its \<open>type\<close> field.\<close>

datatype FailureType = type_no_json | type_invalid_json | type_schema

datatype TunnelFailure =
    Failure_no_json jstring jstring
  | Failure_invalid_json jstring jstring "jstring option"
  | Failure_schema jstring jstring jstring jstring

fun failure_type :: "TunnelFailure \<Rightarrow> FailureType" where
  "failure_type (Failure_no_json m r) = type_no_json"
| "failure_type (Failure_invalid_json m r jt) = type_invalid_json"
| "failure_type (Failure_schema m r jt iss) = type_schema"

fun failure_message :: "TunnelFailure \<Rightarrow> jstring" where
  "failure_message (Failure_no_json m r) = m"
| "failure_message (Failure_invalid_json m r jt) = m"
| "failure_message (Failure_schema m r jt iss) = m"

fun failure_raw :: "TunnelFailure \<Rightarrow> jstring" where
  "failure_raw (Failure_no_json m r) = r"
| "failure_raw (Failure_invalid_json m r jt) = r"
| "failure_raw (Failure_schema m r jt iss) = r"

record TunnelRunContext =
  ctx_attempt :: int
  ctx_maxRetries :: int
  ctx_lastFailure :: "TunnelFailure option"

text \<open>
  What the closures of \<open>createTunnel\<close> capture (the schema and the options), together
  with the platform's \<open>JSON.parse\<close>.
\<close>

record ('v, 'd) Tunnel =
  tunnel_JSON_parse :: "jstring \<Rightarrow> jstring + 'v"
  tunnel_schema :: "('v, 'd) ZodSchema"
  tunnel_options :: TunnelOptions

definition tunnel_maxRetries :: "('v, 'd) Tunnel \<Rightarrow> int" where
  "tunnel_maxRetries t = (case maxRetries (tunnel_options t) of None \<Rightarrow> 2 | Some n \<Rightarrow> n)"

definition tunnel_schemaName :: "('v, 'd) Tunnel \<Rightarrow> jstring" where
  "tunnel_schemaName t = (case schemaName (tunnel_options t) of None \<Rightarrow> ''Output'' | Some n \<Rightarrow> n)"

definition tunnel_maxFailureOutputChars :: "('v, 'd) Tunnel \<Rightarrow> int" where
  "tunnel_maxFailureOutputChars t =
     (case maxFailureOutputChars (tunnel_options t) of None \<Rightarrow> 4000 | Some m \<Rightarrow> m)"

definition schemaTs :: "('v, 'd) Tunnel \<Rightarrow> jstring" where
  "schemaTs t = zodSchemaToTypeScript (tunnel_schema t) (tunnel_schemaName t)"

definition STRICT_RULES :: "('v, 'd) Tunnel \<Rightarrow> jstring" where
  "STRICT_RULES t =
     join [''Return ONLY a valid JSON value that can be parsed by JSON.parse().'',
           ''Do not wrap the JSON in Markdown fences.'',
           ''The JSON MUST conform to this TypeScript definition:'',
           ''```ts\<newline>'' @ schemaTs t @ ''\<newline>```''] ''\<newline>''"

text \<open>The parts pushed for \<open>options.systemPrompt?.trim()\<close>, shared by both prompts.\<close>

definition systemPrompt_parts :: "('v, 'd) Tunnel \<Rightarrow> jstring list" where
  "systemPrompt_parts t =
     (case systemPrompt (tunnel_options t) of
        None \<Rightarrow> []
      | Some sp \<Rightarrow> if trim sp \<noteq> [] then [trim sp] else [])"

definition buildBasePrompt :: "('v, 'd) Tunnel \<Rightarrow> jstring \<Rightarrow> jstring" where
  "buildBasePrompt t userPrompt =
     (let parts = systemPrompt_parts t;
          parts = parts @ [STRICT_RULES t];
          parts = (if trim userPrompt \<noteq> [] then parts @ [trim userPrompt] else parts)
      in join parts ''\<newline>\<newline>'')"

text \<open>
  \<open>truncate(s)\<close> with its default second argument. \<open>s.slice(0, max)\<close> counts a
  negative \<open>max\<close> from the end of the string.
\<close>

definition truncate :: "('v, 'd) Tunnel \<Rightarrow> jstring \<Rightarrow> jstring" where
  "truncate t s =
     (let max_chars = tunnel_maxFailureOutputChars t
      in if int (length s) \<le> max_chars then s
         else (if max_chars < 0 then take (nat (int (length s) + max_chars)) s
               else take (nat max_chars) s)
              @ ''\<newline>...<truncated>'')"

definition buildFixPrompt :: "('v, 'd) Tunnel \<Rightarrow> jstring \<Rightarrow> TunnelFailure \<Rightarrow> jstring" where
  "buildFixPrompt t userPrompt failure =
     (let parts = systemPrompt_parts t;
          parts = parts @ [''Your previous response was invalid.'',
                           ''Return ONLY corrected JSON.'',
                           STRICT_RULES t];
          parts = parts @ [''Validation problems:\<newline>'' @ failure_message failure];
          parts = (case failure of
                     Failure_schema m r jt iss \<Rightarrow> parts @ [''Schema issues:\<newline>'' @ iss]
                   | _ \<Rightarrow> parts);
          parts = (if trim userPrompt \<noteq> []
                   then parts @ [''Original request context:\<newline>'' @ trim userPrompt]
                   else parts);
          parts = parts @ [''Previous output:\<newline>```text\<newline>'' @ truncate t (failure_raw failure)
                           @ ''\<newline>```'']
      in join parts ''\<newline>\<newline>'')"

definition failureFromRaw :: "('v, 'd) Tunnel \<Rightarrow> jstring \<Rightarrow> TunnelFailure option" where
  "failureFromRaw t raw =
     (case extractAndParseJson (tunnel_JSON_parse t) raw of
        NotOk r m jt \<Rightarrow>
          Some (case r of
                  no_json \<Rightarrow> Failure_no_json m raw
                | invalid_json \<Rightarrow> Failure_invalid_json m raw jt)
      | Ok jsonText v \<Rightarrow>
          (case safeParse (tunnel_schema t) (Some v) of
             Inr d \<Rightarrow> None
           | Inl issues \<Rightarrow>
               Some (Failure_schema ''Output JSON did not match the schema.'' raw jsonText
                       (formatZodIssues issues))))"

section \<open>The runner and the retry loop\<close>

text \<open>
  The runner is the caller's function. What \<open>run\<close> sees of one invocation is a
  sequence of calls of \<open>injectSchema\<close>, each answered with a prompt on which the rest of
  the invocation may depend, ended by the raw text the runner returns or by the error
  it throws. A runner keeps a state \<open>'s\<close> of its own from one invocation to the next.
  The calls of an invocation go to the \<open>injectSchema\<close> of that attempt.
\<close>

datatype ('s, 'e) Script =
    InjectSchema jstring "jstring \<Rightarrow> ('s, 'e) Script"
  | Return jstring 's
  | Throw 'e

type_synonym ('s, 'e) TunnelRunner = "'s \<Rightarrow> TunnelRunContext \<Rightarrow> ('s, 'e) Script"

text \<open>
  \<open>injectSchema\<close> of one attempt, with the captured variable \<open>originalPromptIntent\<close>
  passed in and returned. The prompt is \<open>None\<close> where \<open>lastFailure!\<close> is \<open>null\<close> and
  reading its \<open>message\<close> throws a \<open>TypeError\<close>.
\<close>

definition injectSchema ::
  "('v, 'd) Tunnel \<Rightarrow> int \<Rightarrow> TunnelFailure option \<Rightarrow> jstring \<Rightarrow> jstring \<Rightarrow> jstring option \<times> jstring" where
  "injectSchema t attempt lastFailure userPrompt originalPromptIntent =
     (let trimmed = trim userPrompt;
          originalPromptIntent =
            (if attempt = 0 \<and> trimmed \<noteq> [] then trimmed else originalPromptIntent);
          effectivePrompt = (if attempt = 0 then trimmed else originalPromptIntent)
      in (if attempt = 0 then Some (buildBasePrompt t effectivePrompt)
          else (case lastFailure of
                  None \<Rightarrow> None
                | Some failure \<Rightarrow> Some (buildFixPrompt t effectivePrompt failure)),
          originalPromptIntent))"

datatype ('s, 'e) Completion = Returned jstring 's | Threw 'e | ThrewTypeError

text \<open>
  One invocation of the runner: the completion, the value of \<open>originalPromptIntent\<close>
  afterwards, and the calls of \<open>injectSchema\<close> made (argument and returned prompt).
\<close>

primrec call_runner ::
  "(jstring \<Rightarrow> jstring \<Rightarrow> jstring option \<times> jstring) \<Rightarrow> ('s, 'e) Script \<Rightarrow> jstring
   \<Rightarrow> ('s, 'e) Completion \<times> jstring \<times> (jstring \<times> jstring) list" where
  "call_runner inject (InjectSchema userPrompt k) intent =
     (case inject userPrompt intent of
        (None, intent') \<Rightarrow> (ThrewTypeError, intent', [])
      | (Some prompt, intent') \<Rightarrow>
          (case call_runner inject (k prompt) intent' of
             (c, intent'', calls) \<Rightarrow> (c, intent'', (userPrompt, prompt) # calls)))"
| "call_runner inject (Return raw s) intent = (Returned raw s, intent, [])"
| "call_runner inject (Throw e) intent = (Threw e, intent, [])"

text \<open>The record of one attempt: the context given, the calls made, the completion.\<close>

datatype ('s, 'e) AttemptLog =
  AttemptLog (log_context: TunnelRunContext) (log_calls: "(jstring \<times> jstring) list")
    (log_completion: "('s, 'e) Completion")

text \<open>
  How \<open>run\<close> ends: resolved with the validated value, or rejected with
  \<open>TunnelMaxRetriesError\<close>, with the runner's error, or with an error thrown inside
  \<open>run\<close> itself.
\<close>

datatype ('d, 'e) Outcome =
    Resolved 'd
  | TunnelMaxRetriesError jstring "TunnelFailure list"
  | RunnerError 'e
  | TypeError
  | ZodError "ZodIssue list"

text \<open>
  The \<open>for\<close> loop of \<open>run\<close>, one call per iteration. The result is the outcome, the
  array \<open>failures\<close> as it stands when \<open>run\<close> ends, and the record of the attempts made.
\<close>

function run_loop ::
  "('v, 'd) Tunnel \<Rightarrow> ('s, 'e) TunnelRunner \<Rightarrow> int \<Rightarrow> TunnelFailure list \<Rightarrow> TunnelFailure option
   \<Rightarrow> jstring \<Rightarrow> 's \<Rightarrow> ('d, 'e) Outcome \<times> TunnelFailure list \<times> ('s, 'e) AttemptLog list" where
  "run_loop t runner attempt failures lastFailure originalPromptIntent s =
     (if attempt \<le> tunnel_maxRetries t then
        (let context = \<lparr>ctx_attempt = attempt, ctx_maxRetries = tunnel_maxRetries t,
                         ctx_lastFailure = lastFailure\<rparr>
         in case call_runner (injectSchema t attempt lastFailure) (runner s context)
                   originalPromptIntent of
              (Threw e, intent, calls) \<Rightarrow>
                (RunnerError e, failures, [AttemptLog context calls (Threw e)])
            | (ThrewTypeError, intent, calls) \<Rightarrow>
                (TypeError, failures, [AttemptLog context calls ThrewTypeError])
            | (Returned raw s', intent, calls) \<Rightarrow>
                (case failureFromRaw t raw of
                   None \<Rightarrow>
                     (let extracted = extractAndParseJson (tunnel_JSON_parse t) raw;
                          validated = parse (tunnel_schema t)
                                        (case extracted of
                                           Ok jsonText v \<Rightarrow> Some v
                                         | NotOk r m jt \<Rightarrow> None)
                      in (case validated of Inr d \<Rightarrow> Resolved d | Inl issues \<Rightarrow> ZodError issues,
                          failures, [AttemptLog context calls (Returned raw s')]))
                 | Some failure \<Rightarrow>
                     (case run_loop t runner (attempt + 1) (failures @ [failure]) (Some failure)
                             intent s' of
                        (out, fs, lg) \<Rightarrow>
                          (out, fs, AttemptLog context calls (Returned raw s') # lg))))
      else (TunnelMaxRetriesError
              (''Failed to produce valid output after '' @ show_int (tunnel_maxRetries t + 1)
               @ '' attempts.'') failures,
            failures, []))"
  by pat_completeness auto
termination
  by (relation "measure (\<lambda>(t, runner, attempt, failures, lastFailure, intent, s).
                           nat (tunnel_maxRetries t + 1 - attempt))") auto

declare run_loop.simps [simp del]

definition run ::
  "('v, 'd) Tunnel \<Rightarrow> ('s, 'e) TunnelRunner \<Rightarrow> 's
   \<Rightarrow> ('d, 'e) Outcome \<times> TunnelFailure list \<times> ('s, 'e) AttemptLog list" where
  "run t runner s = run_loop t runner 0 [] None [] s"

section \<open>The stream validator (stream.ts)\<close>






section \<open>Definitions used to state the properties\<close>

text \<open>The specification's names for the three extraction results.\<close>

abbreviation NotFound :: "'v JsonExtractionResult" where
  "NotFound \<equiv> NotOk no_json ''No JSON object/array found in model output.'' None"

abbreviation ParseError :: "jstring \<Rightarrow> jstring \<Rightarrow> 'v JsonExtractionResult" where
  "ParseError span m \<equiv> NotOk invalid_json m (Some span)"

abbreviation Found :: "jstring \<Rightarrow> 'v \<Rightarrow> 'v JsonExtractionResult" where
  "Found span v \<equiv> Ok span v"

text \<open>The depth after the characters at \<open>i\<close> to \<open>j\<close> inclusive, from scan state \<open>s\<close>.\<close>

definition depth_from :: "scan_state \<Rightarrow> jstring \<Rightarrow> nat \<Rightarrow> nat \<Rightarrow> int" where
  "depth_from s inp i j = nesting (foldl spec_step s (take (j + 1 - i) (drop i inp)))"



section \<open>Reading the record of a run\<close>

text \<open>
  An attempt failed when the runner returned a text that \<open>failureFromRaw\<close> rejects;
  \<open>attempt_failures\<close> is the failure record such an attempt adds.
\<close>

definition attempt_failed :: "('v, 'd) Tunnel \<Rightarrow> ('s, 'e) AttemptLog \<Rightarrow> bool" where
  "attempt_failed t entry =
     (case log_completion entry of
        Returned raw s \<Rightarrow> failureFromRaw t raw \<noteq> None
      | Threw e \<Rightarrow> False
      | ThrewTypeError \<Rightarrow> False)"

definition attempt_failures :: "('v, 'd) Tunnel \<Rightarrow> ('s, 'e) AttemptLog \<Rightarrow> TunnelFailure list" where
  "attempt_failures t entry =
     (case log_completion entry of
        Returned raw s \<Rightarrow> (case failureFromRaw t raw of Some f \<Rightarrow> [f] | None \<Rightarrow> [])
      | Threw e \<Rightarrow> []
      | ThrewTypeError \<Rightarrow> [])"

text \<open>
  The state in which the runner is before attempt \<open>k\<close>: the initial state, carried
  through the states that the earlier invocations returned.
\<close>

fun runner_state :: "'s \<Rightarrow> ('s, 'e) AttemptLog list \<Rightarrow> nat \<Rightarrow> 's" where
  "runner_state s lg 0 = s"
| "runner_state s [] (Suc k) = s"
| "runner_state s (entry # lg) (Suc k) =
     runner_state (case log_completion entry of
                     Returned raw s' \<Rightarrow> s'
                   | Threw e \<Rightarrow> s
                   | ThrewTypeError \<Rightarrow> s) lg k"

definition max_retries_message :: "('v, 'd) Tunnel \<Rightarrow> jstring" where
  "max_retries_message t =
     ''Failed to produce valid output after '' @ show_int (tunnel_maxRetries t + 1) @ '' attempts.''"

abbreviation attempt_context :: "('v, 'd) Tunnel \<Rightarrow> int \<Rightarrow> TunnelFailure option \<Rightarrow> TunnelRunContext" where
  "attempt_context t a lf \<equiv>
     \<lparr>ctx_attempt = a, ctx_maxRetries = tunnel_maxRetries t, ctx_lastFailure = lf\<rparr>"

section \<open>The loop without the second extraction\<close>

text \<open>
  The specification recommends to extract and validate the raw text once and to return
  the value that validation produced. \<open>spec_validate\<close> is that single pass, and
  \<open>spec_run_loop\<close> the loop built on it; everything else is as in \<open>run_loop\<close>.
\<close>

definition spec_validate :: "('v, 'd) Tunnel \<Rightarrow> jstring \<Rightarrow> TunnelFailure + 'd" where
  "spec_validate t raw =
     (case extractAndParseJson (tunnel_JSON_parse t) raw of
        NotOk r m jt \<Rightarrow>
          Inl (case r of
                 no_json \<Rightarrow> Failure_no_json m raw
               | invalid_json \<Rightarrow> Failure_invalid_json m raw jt)
      | Ok jsonText v \<Rightarrow>
          (case safeParse (tunnel_schema t) (Some v) of
             Inr d \<Rightarrow> Inr d
           | Inl issues \<Rightarrow>
               Inl (Failure_schema ''Output JSON did not match the schema.'' raw jsonText
                      (formatZodIssues issues))))"

function spec_run_loop ::
  "('v, 'd) Tunnel \<Rightarrow> ('s, 'e) TunnelRunner \<Rightarrow> int \<Rightarrow> TunnelFailure list \<Rightarrow> TunnelFailure option
   \<Rightarrow> jstring \<Rightarrow> 's \<Rightarrow> ('d, 'e) Outcome \<times> TunnelFailure list \<times> ('s, 'e) AttemptLog list" where
  "spec_run_loop t runner attempt failures lastFailure originalPromptIntent s =
     (if attempt \<le> tunnel_maxRetries t then
        (let context = \<lparr>ctx_attempt = attempt, ctx_maxRetries = tunnel_maxRetries t,
                         ctx_lastFailure = lastFailure\<rparr>
         in case call_runner (injectSchema t attempt lastFailure) (runner s context)
                   originalPromptIntent of
              (Threw e, intent, calls) \<Rightarrow>
                (RunnerError e, failures, [AttemptLog context calls (Threw e)])
            | (ThrewTypeError, intent, calls) \<Rightarrow>
                (TypeError, failures, [AttemptLog context calls ThrewTypeError])
            | (Returned raw s', intent, calls) \<Rightarrow>
                (case spec_validate t raw of
                   Inr d \<Rightarrow> (Resolved d, failures, [AttemptLog context calls (Returned raw s')])
                 | Inl failure \<Rightarrow>
                     (case spec_run_loop t runner (attempt + 1) (failures @ [failure])
                             (Some failure) intent s' of
                        (out, fs, lg) \<Rightarrow>
                          (out, fs, AttemptLog context calls (Returned raw s') # lg))))
      else (TunnelMaxRetriesError
              (''Failed to produce valid output after '' @ show_int (tunnel_maxRetries t + 1)
               @ '' attempts.'') failures,
            failures, []))"
  by pat_completeness auto
termination
  by (relation "measure (\<lambda>(t, runner, attempt, failures, lastFailure, intent, s).
                           nat (tunnel_maxRetries t + 1 - attempt))") auto

declare spec_run_loop.simps [simp del]

definition spec_run ::
  "('v, 'd) Tunnel \<Rightarrow> ('s, 'e) TunnelRunner \<Rightarrow> 's
   \<Rightarrow> ('d, 'e) Outcome \<times> TunnelFailure list \<times> ('s, 'e) AttemptLog list" where
  "spec_run t runner s = spec_run_loop t runner 0 [] None [] s"

text \<open>The value \<open>run\<close> computes on its success path, by the second extraction.\<close>

definition reparsed :: "('v, 'd) Tunnel \<Rightarrow> jstring \<Rightarrow> ZodIssue list + 'd" where
  "reparsed t raw =
     parse (tunnel_schema t)
       (case extractAndParseJson (tunnel_JSON_parse t) raw of
          Ok jsonText v \<Rightarrow> Some v
        | NotOk r m jt \<Rightarrow> None)"

section \<open>The corrective prompt as the specification lists it\<close>

text \<open>
  The intent locked on attempt 0: the trimmed argument of the last call of
  \<open>injectSchema\<close> whose trimmed argument is not empty, and the empty string when there
  is none. The argument is the list of the arguments of the calls, in order.
\<close>

definition locked_intent :: "jstring list \<Rightarrow> jstring" where
  "locked_intent userPrompts =
     (let nonEmpty = filter (\<lambda>u. u \<noteq> []) (map trim userPrompts)
      in if nonEmpty = [] then [] else last nonEmpty)"

text \<open>
  The parts of a corrective prompt: those before the original-context part, that part
  for a locked intent (absent for the empty intent), and the closing part with the
  previous output.
\<close>

definition fix_parts_before :: "('v, 'd) Tunnel \<Rightarrow> TunnelFailure \<Rightarrow> jstring list" where
  "fix_parts_before t failure =
     systemPrompt_parts t
     @ [''Your previous response was invalid.'', ''Return ONLY corrected JSON.'', STRICT_RULES t,
        ''Validation problems:\<newline>'' @ failure_message failure]
     @ (case failure of
          Failure_schema m r jt iss \<Rightarrow> [''Schema issues:\<newline>'' @ iss]
        | _ \<Rightarrow> [])"

definition original_context_part :: "jstring \<Rightarrow> jstring list" where
  "original_context_part intent =
     (if intent = [] then [] else [''Original request context:\<newline>'' @ intent])"

definition previous_output_part :: "('v, 'd) Tunnel \<Rightarrow> TunnelFailure \<Rightarrow> jstring" where
  "previous_output_part t failure =
     ''Previous output:\<newline>```text\<newline>'' @ truncate t (failure_raw failure) @ ''\<newline>```''"

text \<open>\<open>String.prototype.includes\<close>.\<close>

primrec js_includes :: "jstring \<Rightarrow> jstring \<Rightarrow> bool" where
  "js_includes [] needle = (needle = [])"
| "js_includes (c # cs) needle = (take (length needle) (c # cs) = needle \<or> js_includes cs needle)"

section \<open>Concrete inputs\<close>

text \<open>
  A decoder that knows three documents, a schema that accepts \<open>{"ok":true}\<close> only
  and answers alike at both entries, and runners in the manner of the repository's tests.
\<close>

definition example_parse :: "jstring \<Rightarrow> jstring + jstring" where
  \<open>example_parse s =
     (if s = ''{"ok":true}'' \<or> s = ''{"ok":1}'' \<or> s = ''[1]'' then Inr s
      else Inl ''Unexpected token'')\<close>

definition example_validate :: "jstring option \<Rightarrow> ZodIssue list + bool" where
  \<open>example_validate v =
     (if v = Some ''{"ok":true}'' then Inr True
      else if v = Some ''[1]'' then Inl [ZodIssue [] ''Expected object, received array'']
      else Inl [ZodIssue [Key ''ok''] ''Expected boolean, received number''])\<close>

definition example_schema :: "(jstring, bool) ZodSchema" where
  \<open>example_schema =
     \<lparr>safeParse = example_validate, parse = example_validate,
      zodSchemaToTypeScript = (\<lambda>name. ''export interface '' @ name @ '' { ok: boolean }'')\<rparr>\<close>

text \<open>
  Two schemas whose validation does not depend on the value alone: the second entry
  rejects what the first accepted, or gives another value for it.
\<close>

definition schema_rejecting_second_pass :: "(jstring, bool) ZodSchema" where
  "schema_rejecting_second_pass =
     example_schema\<lparr>parse := (\<lambda>v. Inl [ZodIssue [] ''Invalid input''])\<rparr>"

definition schema_changing_second_pass :: "(jstring, bool) ZodSchema" where
  "schema_changing_second_pass = example_schema\<lparr>parse := (\<lambda>v. Inr False)\<rparr>"

definition runner_always_valid :: "(unit, jstring) TunnelRunner" where
  \<open>runner_always_valid s ctx = InjectSchema ''Get ok'' (\<lambda>prompt. Return ''{"ok":true}'' s)\<close>

definition example_tunnel :: "int \<Rightarrow> int \<Rightarrow> (jstring, bool) Tunnel" where
  "example_tunnel retries max_chars =
     \<lparr>tunnel_JSON_parse = example_parse, tunnel_schema = example_schema,
      tunnel_options = \<lparr>maxRetries = Some retries, systemPrompt = None, schemaName = None,
                         maxFailureOutputChars = Some max_chars\<rparr>\<rparr>"

definition runner_never_valid :: "(unit, jstring) TunnelRunner" where
  "runner_never_valid s ctx = InjectSchema ''Get ok'' (\<lambda>prompt. Return ''not json'' s)"

definition runner_valid_on_retry :: "(unit, jstring) TunnelRunner" where
  \<open>runner_valid_on_retry s ctx =
     InjectSchema ''Get ok''
       (\<lambda>prompt. if ctx_attempt ctx = 0 then Return ''{"ok":1}'' s
                  else Return ''Here it is: {"ok":true}'' s)\<close>

definition runner_throws_on_retry :: "(unit, jstring) TunnelRunner" where
  \<open>runner_throws_on_retry s ctx =
     InjectSchema ''Get ok''
       (\<lambda>prompt. if ctx_attempt ctx = 0 then Return ''{"ok":1}'' s
                  else Throw ''network down'')\<close>

text \<open>
  Runners that change the text they pass on a retry, that call \<open>injectSchema\<close> several
  times, that return a text ending in the truncation marker, and that return two spans.
\<close>

definition runner_changes_intent :: "(unit, jstring) TunnelRunner" where
  \<open>runner_changes_intent s ctx =
     InjectSchema (if ctx_attempt ctx = 0 then ''  First intent '' else ''Different intent'')
       (\<lambda>prompt. if ctx_attempt ctx = 0 then Return ''{"ok":1}'' s
                  else Return ''{"ok":true}'' s)\<close>

definition runner_many_calls :: "(unit, jstring) TunnelRunner" where
  \<open>runner_many_calls s ctx =
     InjectSchema ''first''
       (\<lambda>p1. InjectSchema '' second ''
          (\<lambda>p2. InjectSchema ''   ''
             (\<lambda>p3. if ctx_attempt ctx = 0 then Return ''{"ok":1}'' s
                     else Return ''{"ok":true}'' s)))\<close>

definition runner_marker_text :: "(unit, jstring) TunnelRunner" where
  \<open>runner_marker_text s ctx =
     InjectSchema ''Get ok'' (\<lambda>prompt. Return ''0123456789\<newline>...<truncated>'' s)\<close>

definition runner_two_spans :: "(unit, jstring) TunnelRunner" where
  \<open>runner_two_spans s ctx =
     InjectSchema ''Get ok'' (\<lambda>prompt. Return ''[1] {"ok":true}'' s)\<close>

section \<open>The extractor meets its specification\<close>

lemma indexOf_None: "indexOf inp c = None \<longleftrightarrow> c \<notin> set inp"
  by (induction inp) auto

lemma indexOf_Some:
  "indexOf inp c = Some i \<longleftrightarrow> i < length inp \<and> inp ! i = c \<and> (\<forall>j<i. inp ! j \<noteq> c)"
proof (induction inp arbitrary: i)
  case Nil
  then show ?case by simp
next
  case (Cons x xs)
  show ?case
  proof (cases "x = c")
    case True
    then show ?thesis by (cases i) auto
  next
    case False
    show ?thesis
    proof (cases i)
      case 0
      with False show ?thesis by auto
    next
      case (Suc k)
      with False Cons.IH [of k] show ?thesis
        by (auto simp: less_Suc_eq_0_disj nth_Cons')
    qed
  qed
qed

lemma find_upt_Some:
  "List.find P [a..<n] = Some i \<longleftrightarrow> a \<le> i \<and> i < n \<and> P i \<and> (\<forall>j. a \<le> j \<and> j < i \<longrightarrow> \<not> P j)"
proof
  assume "List.find P [a..<n] = Some i"
  then obtain k where k: "k < n - a" "P ([a..<n] ! k)" "i = [a..<n] ! k"
    and least: "\<forall>j<k. \<not> P ([a..<n] ! j)"
    by (auto simp: find_Some_iff)
  from k have i: "i = a + k" "P i" by simp_all
  have "\<not> P j" if "a \<le> j" "j < i" for j
  proof -
    from that i k have "j - a < k" "j - a < n - a" by auto
    with least have "\<not> P ([a..<n] ! (j - a))" by blast
    with that \<open>j - a < n - a\<close> show ?thesis by simp
  qed
  with i k show "a \<le> i \<and> i < n \<and> P i \<and> (\<forall>j. a \<le> j \<and> j < i \<longrightarrow> \<not> P j)" by auto
next
  assume r: "a \<le> i \<and> i < n \<and> P i \<and> (\<forall>j. a \<le> j \<and> j < i \<longrightarrow> \<not> P j)"
  then have "i - a < length [a..<n]" "P ([a..<n] ! (i - a))" "i = [a..<n] ! (i - a)"
    by auto
  moreover have "\<forall>j<i - a. \<not> P ([a..<n] ! j)"
  proof (intro allI impI)
    fix j assume "j < i - a"
    with r have "a \<le> a + j" "a + j < i" "a + j < n" by auto
    with r show "\<not> P ([a..<n] ! j)" by simp
  qed
  ultimately show "List.find P [a..<n] = Some i"
    unfolding find_Some_iff by blast
qed

lemma find_upt_None:
  "List.find P [a..<n] = None \<longleftrightarrow> (\<forall>j. a \<le> j \<and> j < n \<longrightarrow> \<not> P j)"
  by (auto simp: find_None_iff)

lemma findJsonStartIndex_spec: "findJsonStartIndex inp = spec_start inp"
proof (cases "spec_start inp")
  case None
  then have "CHR ''{'' \<notin> set inp" "CHR ''['' \<notin> set inp"
    by (auto simp: spec_start_def find_upt_None in_set_conv_nth)
  then show ?thesis using None
    by (simp add: findJsonStartIndex_def indexOf_None [symmetric])
next
  case (Some i)
  then have i: "i < length inp" "inp ! i = CHR ''{'' \<or> inp ! i = CHR ''[''"
    and least: "\<And>j. j < i \<Longrightarrow> inp ! j \<noteq> CHR ''{'' \<and> inp ! j \<noteq> CHR ''[''"
    by (auto simp: spec_start_def find_upt_Some)
  show ?thesis
  proof (cases "indexOf inp (CHR ''{'')")
    case None
    note obj = this
    then have no: "CHR ''{'' \<notin> set inp" by (simp add: indexOf_None)
    with i have "inp ! i = CHR ''[''" by (auto simp: in_set_conv_nth)
    with i least have "indexOf inp (CHR ''['') = Some i" by (simp add: indexOf_Some)
    with obj Some show ?thesis by (simp add: findJsonStartIndex_def)
  next
    case (Some ob)
    note obj = this
    then have ob: "ob < length inp" "inp ! ob = CHR ''{''" "\<And>j. j < ob \<Longrightarrow> inp ! j \<noteq> CHR ''{''"
      by (auto simp: indexOf_Some)
    from ob least have "i \<le> ob" by (meson not_le_imp_less)
    show ?thesis
    proof (cases "indexOf inp (CHR ''['')")
      case None
      then have "CHR ''['' \<notin> set inp" by (simp add: indexOf_None)
      with i have "inp ! i = CHR ''{''" by (auto simp: in_set_conv_nth)
      with ob(3) [of i] \<open>i \<le> ob\<close> have "ob = i" by (cases "i < ob") auto
      with obj None \<open>spec_start inp = Some i\<close> show ?thesis by (simp add: findJsonStartIndex_def)
    next
      case (Some a)
      then have a: "a < length inp" "inp ! a = CHR ''[''" "\<And>j. j < a \<Longrightarrow> inp ! j \<noteq> CHR ''[''"
        by (auto simp: indexOf_Some)
      from a least have "i \<le> a" by (meson not_le_imp_less)
      from i ob(3) [of i] a(3) [of i] have "\<not> i < ob \<or> \<not> i < a" by auto
      with \<open>i \<le> ob\<close> \<open>i \<le> a\<close> have "min ob a = i" by auto
      with obj Some \<open>spec_start inp = Some i\<close> show ?thesis by (simp add: findJsonStartIndex_def)
    qed
  qed
qed

lemma depth_from_self:
  "i < length inp \<Longrightarrow> depth_from s inp i i = nesting (spec_step s (inp ! i))"
  by (simp add: depth_from_def take_Suc_conv_app_nth hd_drop_conv_nth take_Suc)

lemma depth_from_Suc:
  assumes "i < length inp" "i < j"
  shows "depth_from s inp i j = depth_from (spec_step s (inp ! i)) inp (Suc i) j"
proof -
  from assms have "j + 1 - i = Suc (j + 1 - Suc i)" by simp
  moreover from assms have "drop i inp = inp ! i # drop (Suc i) inp"
    by (simp add: Cons_nth_drop_Suc)
  ultimately show ?thesis by (simp add: depth_from_def)
qed

lemma spec_depth_after_from: "spec_depth_after inp start i = depth_from spec_initial inp start i"
  by (simp add: spec_depth_after_def depth_from_def)

lemma find_depth_from_unfold:
  assumes "i < length inp"
  shows "List.find (\<lambda>j. depth_from s inp i j = 0) [i..<length inp] =
         (if nesting (spec_step s (inp ! i)) = 0 then Some i
          else List.find (\<lambda>j. depth_from (spec_step s (inp ! i)) inp (Suc i) j = 0) [Suc i..<length inp])"
proof -
  have "List.find (\<lambda>j. depth_from s inp i j = 0) [Suc i..<length inp] =
        List.find (\<lambda>j. depth_from (spec_step s (inp ! i)) inp (Suc i) j = 0) [Suc i..<length inp]"
    using assms by (intro find_cong) (auto simp: depth_from_Suc)
  with assms show ?thesis
    by (simp add: upt_conv_Cons depth_from_self)
qed

lemma nesting_spec_step:
  "nesting (spec_step s ch) = nesting s \<or> nesting (spec_step s ch) = nesting s + 1
   \<or> nesting (spec_step s ch) = nesting s - 1"
  by (simp add: spec_step_def)

lemma loop_step:
  assumes "i < length inp" "1 \<le> d"
  shows "extractJsonText_loop inp start i inS es d =
         (let s' = spec_step \<lparr>in_string = inS, esc = es, nesting = d\<rparr> (inp ! i)
          in if nesting s' = 0 then Some (slice inp start (i + 1))
             else extractJsonText_loop inp start (i + 1) (in_string s') (esc s') (nesting s'))"
  using assms
  by (subst extractJsonText_loop.simps) (auto simp: spec_step_def Let_def)

lemma loop_first:
  assumes "i < length inp" "inp ! i = CHR ''{'' \<or> inp ! i = CHR ''[''"
  shows "extractJsonText_loop inp start i False False 0 =
         extractJsonText_loop inp start (i + 1) False False 1"
  using assms
  by (subst extractJsonText_loop.simps) (auto simp: Let_def)

lemma loop_spec:
  assumes "1 \<le> d" "i \<le> length inp"
  shows "extractJsonText_loop inp start i inS es d =
         (case List.find (\<lambda>j. depth_from \<lparr>in_string = inS, esc = es, nesting = d\<rparr> inp i j = 0)
                 [i..<length inp] of
            None \<Rightarrow> None
          | Some e \<Rightarrow> Some (slice inp start (e + 1)))"
  using assms
proof (induction "length inp - i" arbitrary: i inS es d)
  case 0
  then have "i = length inp" by simp
  then show ?case by (subst extractJsonText_loop.simps) simp
next
  case (Suc n)
  then have i: "i < length inp" by simp
  define s' where "s' = spec_step \<lparr>in_string = inS, esc = es, nesting = d\<rparr> (inp ! i)"
  show ?case
  proof (cases "nesting s' = 0")
    case True
    with i Suc.prems show ?thesis
      by (simp add: loop_step find_depth_from_unfold s'_def [symmetric])
  next
    case False
    from nesting_spec_step [of "\<lparr>in_string = inS, esc = es, nesting = d\<rparr>" "inp ! i"] False Suc.prems
    have d': "1 \<le> nesting s'" by (auto simp: s'_def)
    have s'_eq: "\<lparr>in_string = in_string s', esc = esc s', nesting = nesting s'\<rparr> = s'" by simp
    from Suc.hyps(2) i have "n = length inp - (i + 1)" by simp
    from Suc.hyps(1) [OF this d', of "in_string s'" "esc s'"] i
    have "extractJsonText_loop inp start (i + 1) (in_string s') (esc s') (nesting s') =
          (case List.find (\<lambda>j. depth_from s' inp (Suc i) j = 0) [Suc i..<length inp] of
             None \<Rightarrow> None | Some e \<Rightarrow> Some (slice inp start (e + 1)))"
      by (simp add: s'_eq)
    with i Suc.prems False show ?thesis
      by (simp add: loop_step find_depth_from_unfold s'_def [symmetric])
  qed
qed

lemma extractJsonText_spec: "extractJsonText inp = spec_span inp"
proof (cases "spec_start inp")
  case None
  then show ?thesis
    by (simp add: extractJsonText_def spec_span_def findJsonStartIndex_spec)
next
  case (Some start)
  then have st: "start < length inp" "inp ! start = CHR ''{'' \<or> inp ! start = CHR ''[''"
    by (auto simp: spec_start_def find_upt_Some)
  then have step: "spec_step spec_initial (inp ! start) = \<lparr>in_string = False, esc = False, nesting = 1\<rparr>"
    by (auto simp: spec_step_def spec_initial_def)
  from st have "extractJsonText inp = extractJsonText_loop inp start (start + 1) False False 1"
    using Some by (simp add: extractJsonText_def findJsonStartIndex_spec loop_first)
  also from st have "\<dots> = (case List.find (\<lambda>j. depth_from \<lparr>in_string = False, esc = False, nesting = 1\<rparr> inp (Suc start) j = 0)
                 [Suc start..<length inp] of
            None \<Rightarrow> None
          | Some e \<Rightarrow> Some (slice inp start (e + 1)))"
    by (simp add: loop_spec)
  also from st step have "\<dots> = (case List.find (\<lambda>j. spec_depth_after inp start j = 0) [start..<length inp] of
            None \<Rightarrow> None
          | Some e \<Rightarrow> Some (slice inp start (e + 1)))"
    by (simp add: spec_depth_after_from [abs_def] find_depth_from_unfold)
  finally show ?thesis using Some
    by (simp add: spec_span_def slice_def split: option.splits)
qed

lemma spec_span_nonempty: "spec_span inp = Some span \<Longrightarrow> span \<noteq> []"
  by (auto simp: spec_span_def find_upt_Some split: option.splits)

lemma extractAndParseJson_cases:
  "extractAndParseJson JSON_parse inp =
     (case spec_span inp of
        None \<Rightarrow> NotFound
      | Some span \<Rightarrow>
          (case JSON_parse span of
             Inl m \<Rightarrow> ParseError span m
           | Inr v \<Rightarrow> Found span v))"
  by (auto simp: extractAndParseJson_def extractJsonText_spec
        dest: spec_span_nonempty split: option.splits sum.splits)

text \<open>
  C4. For every input, \<open>extractAndParseJson\<close> gives \<open>NotFound\<close> when the text has no
  \<open>{\<close> or \<open>[\<close> or the depth-counting scan from the first of them never returns to
  zero; otherwise the span runs from the start through the first position where the
  depth is back at zero, and the result is \<open>ParseError\<close> with the decoder's message and
  that span when the decoder fails on it, \<open>Found\<close> with the span and the decoded value
  when it succeeds. In particular a decoder that rejects \<open>{"a": 1,}\<close> gives
  \<open>ParseError\<close> with exactly that span.
\<close>

theorem extractAndParseJson_spec:
  \<open>extractAndParseJson JSON_parse inp =
     (case spec_span inp of
        None \<Rightarrow> NotFound
      | Some span \<Rightarrow>
          (case JSON_parse span of
             Inl m \<Rightarrow> ParseError span m
           | Inr v \<Rightarrow> Found span v))
   \<and> (JSON_parse ''{"a": 1,}'' = Inl msg \<longrightarrow>
        extractAndParseJson JSON_parse ''{"a": 1,}'' = ParseError ''{"a": 1,}'' msg)\<close>
proof
  show \<open>extractAndParseJson JSON_parse inp =
     (case spec_span inp of
        None \<Rightarrow> NotFound
      | Some span \<Rightarrow>
          (case JSON_parse span of
             Inl m \<Rightarrow> ParseError span m
           | Inr v \<Rightarrow> Found span v))\<close>
    by (rule extractAndParseJson_cases)
next
  have \<open>extractJsonText ''{"a": 1,}'' = Some ''{"a": 1,}''\<close>
    by code_simp
  then show \<open>JSON_parse ''{"a": 1,}'' = Inl msg \<longrightarrow>
        extractAndParseJson JSON_parse ''{"a": 1,}'' = ParseError ''{"a": 1,}'' msg\<close>
    by (simp add: extractAndParseJson_def)
qed

theorem extractAndParseJson_spec_witness:
  \<open>extractAndParseJson (\<lambda>s. Inl ''Unexpected token }'' :: jstring + unit) ''{"a": 1,}''
     = ParseError ''{"a": 1,}'' ''Unexpected token }''
   \<and> extractAndParseJson (\<lambda>s. Inr () :: jstring + unit) ''Sure: {"a": "{not json}"} Done.''
     = Found ''{"a": "{not json}"}'' ()\<close>
proof -
  have \<open>spec_span ''Sure: {"a": "{not json}"} Done.'' = Some ''{"a": "{not json}"}''\<close>
    by code_simp
  with extractAndParseJson_spec
         [of \<open>\<lambda>s. Inl ''Unexpected token }'' :: jstring + unit\<close> \<open>[]\<close> \<open>''Unexpected token }''\<close>]
       extractAndParseJson_spec
         [of \<open>\<lambda>s. Inr () :: jstring + unit\<close> \<open>''Sure: {"a": "{not json}"} Done.''\<close>]
  show ?thesis by simp
qed

section \<open>The stream validator reports on its buffer\<close>






section \<open>The retry loop: attempts, failures, outcome\<close>

lemma failureFromRaw_None:
  "failureFromRaw t raw = None \<longleftrightarrow>
     (\<exists>span v d. extractAndParseJson (tunnel_JSON_parse t) raw = Ok span v
        \<and> safeParse (tunnel_schema t) (Some v) = Inr d)"
  by (auto simp: failureFromRaw_def split: JsonExtractionResult.splits sum.splits)

lemma run_loop_exhausted:
  "\<not> a \<le> tunnel_maxRetries t \<Longrightarrow>
   run_loop t runner a fs0 lf intent s = (TunnelMaxRetriesError (max_retries_message t) fs0, fs0, [])"
  by (subst run_loop.simps) (simp add: max_retries_message_def)

lemma run_loop_step:
  "a \<le> tunnel_maxRetries t \<Longrightarrow>
   run_loop t runner a fs0 lf intent s =
     (case call_runner (injectSchema t a lf) (runner s (attempt_context t a lf)) intent of
        (Threw e, intent', calls) \<Rightarrow>
          (RunnerError e, fs0, [AttemptLog (attempt_context t a lf) calls (Threw e)])
      | (ThrewTypeError, intent', calls) \<Rightarrow>
          (TypeError, fs0, [AttemptLog (attempt_context t a lf) calls ThrewTypeError])
      | (Returned raw s', intent', calls) \<Rightarrow>
          (case failureFromRaw t raw of
             None \<Rightarrow>
               (case parse (tunnel_schema t)
                       (case extractAndParseJson (tunnel_JSON_parse t) raw of
                          Ok jsonText v \<Rightarrow> Some v
                        | NotOk r m jt \<Rightarrow> None) of
                  Inr d \<Rightarrow> Resolved d
                | Inl issues \<Rightarrow> ZodError issues,
                fs0, [AttemptLog (attempt_context t a lf) calls (Returned raw s')])
           | Some failure \<Rightarrow>
               (case run_loop t runner (a + 1) (fs0 @ [failure]) (Some failure) intent' s' of
                  (out, fs, lg) \<Rightarrow>
                    (out, fs, AttemptLog (attempt_context t a lf) calls (Returned raw s') # lg))))"
  by (subst run_loop.simps)
     (simp add: Let_def split: prod.splits Completion.splits option.splits)

lemma run_loop_cases [consumes 1, case_names exhausted threw type_error valid retry]:
  assumes "run_loop t runner a fs0 lf intent s = (out, fs, lg)"
  obtains
    "\<not> a \<le> tunnel_maxRetries t" "out = TunnelMaxRetriesError (max_retries_message t) fs0"
      "fs = fs0" "lg = []"
  | e intent' calls where "a \<le> tunnel_maxRetries t"
      "call_runner (injectSchema t a lf) (runner s (attempt_context t a lf)) intent
         = (Threw e, intent', calls)"
      "out = RunnerError e" "fs = fs0" "lg = [AttemptLog (attempt_context t a lf) calls (Threw e)]"
  | intent' calls where "a \<le> tunnel_maxRetries t"
      "call_runner (injectSchema t a lf) (runner s (attempt_context t a lf)) intent
         = (ThrewTypeError, intent', calls)"
      "out = TypeError" "fs = fs0" "lg = [AttemptLog (attempt_context t a lf) calls ThrewTypeError]"
  | raw s' intent' calls span v d where "a \<le> tunnel_maxRetries t"
      "call_runner (injectSchema t a lf) (runner s (attempt_context t a lf)) intent
         = (Returned raw s', intent', calls)"
      "failureFromRaw t raw = None"
      "extractAndParseJson (tunnel_JSON_parse t) raw = Ok span v"
      "safeParse (tunnel_schema t) (Some v) = Inr d"
      "out = (case parse (tunnel_schema t) (Some v) of
                Inr d' \<Rightarrow> Resolved d'
              | Inl issues \<Rightarrow> ZodError issues)"
      "fs = fs0"
      "lg = [AttemptLog (attempt_context t a lf) calls (Returned raw s')]"
  | raw s' intent' calls f lg' where "a \<le> tunnel_maxRetries t"
      "call_runner (injectSchema t a lf) (runner s (attempt_context t a lf)) intent
         = (Returned raw s', intent', calls)"
      "failureFromRaw t raw = Some f"
      "run_loop t runner (a + 1) (fs0 @ [f]) (Some f) intent' s' = (out, fs, lg')"
      "lg = AttemptLog (attempt_context t a lf) calls (Returned raw s') # lg'"
proof (cases "a \<le> tunnel_maxRetries t")
  case False
  with assms have "out = TunnelMaxRetriesError (max_retries_message t) fs0" "fs = fs0" "lg = []"
    by (auto simp: run_loop_exhausted)
  with False that(1) show ?thesis by blast
next
  case le: True
  obtain c intent' calls where cr:
    "call_runner (injectSchema t a lf) (runner s (attempt_context t a lf)) intent = (c, intent', calls)"
    by (metis prod_cases3)
  show ?thesis
  proof (cases c)
    case (Threw e)
    with assms le cr have "out = RunnerError e" "fs = fs0"
      "lg = [AttemptLog (attempt_context t a lf) calls (Threw e)]"
      by (auto simp: run_loop_step)
    with le cr Threw that(2) show ?thesis by blast
  next
    case ThrewTypeError
    with assms le cr have "out = TypeError" "fs = fs0"
      "lg = [AttemptLog (attempt_context t a lf) calls ThrewTypeError]"
      by (auto simp: run_loop_step)
    with le cr ThrewTypeError that(3) show ?thesis by blast
  next
    case (Returned raw s')
    show ?thesis
    proof (cases "failureFromRaw t raw")
      case None
      then obtain span v d where ok: "extractAndParseJson (tunnel_JSON_parse t) raw = Ok span v"
        "safeParse (tunnel_schema t) (Some v) = Inr d"
        by (auto simp: failureFromRaw_None)
      with assms le cr Returned None
      have "out = (case parse (tunnel_schema t) (Some v) of
                     Inr d' \<Rightarrow> Resolved d'
                   | Inl issues \<Rightarrow> ZodError issues)"
        "fs = fs0"
        "lg = [AttemptLog (attempt_context t a lf) calls (Returned raw s')]"
        by (auto simp: run_loop_step)
      with le cr Returned None ok that(4) show ?thesis by blast
    next
      case (Some f)
      obtain out' fs' lg' where rec:
        "run_loop t runner (a + 1) (fs0 @ [f]) (Some f) intent' s' = (out', fs', lg')"
        by (metis prod_cases3)
      with assms le cr Returned Some have "out = out'" "fs = fs'"
        "lg = AttemptLog (attempt_context t a lf) calls (Returned raw s') # lg'"
        by (auto simp: run_loop_step)
      with le cr Returned Some rec that(5) show ?thesis by blast
    qed
  qed
qed

lemma run_loop_failures:
  "run_loop t runner a fs0 lf intent s = (out, fs, lg) \<Longrightarrow>
     fs = fs0 @ concat (map (attempt_failures t) lg)"
proof (induction lg arbitrary: a fs0 lf intent s)
  case Nil
  then show ?case by (cases rule: run_loop_cases) simp_all
next
  case (Cons entry lg)
  from Cons.prems show ?case
  proof (cases rule: run_loop_cases)
    case (retry raw s' intent' calls f lg')
    with Cons.IH [of "a + 1" "fs0 @ [f]" "Some f" intent' s'] show ?thesis
      by (simp add: attempt_failures_def)
  qed (simp_all add: attempt_failures_def)
qed

lemma run_loop_attempts:
  "run_loop t runner a fs0 lf intent s = (out, fs, lg) \<Longrightarrow> i < length lg \<Longrightarrow>
     ctx_attempt (log_context (lg ! i)) = a + int i \<and> a + int i \<le> tunnel_maxRetries t
     \<and> ctx_maxRetries (log_context (lg ! i)) = tunnel_maxRetries t"
proof (induction lg arbitrary: a fs0 lf intent s i)
  case Nil
  then show ?case by simp
next
  case (Cons entry lg)
  from Cons.prems(1) show ?case
  proof (cases rule: run_loop_cases)
    case (retry raw s' intent' calls f lg')
    show ?thesis
    proof (cases i)
      case 0
      with retry show ?thesis by simp
    next
      case (Suc j)
      with retry Cons.prems(2) Cons.IH [of "a + 1" "fs0 @ [f]" "Some f" intent' s' j]
      show ?thesis by simp
    qed
  qed (use Cons.prems(2) in simp_all)
qed

lemma run_loop_stops:
  "run_loop t runner a fs0 lf intent s = (out, fs, lg) \<Longrightarrow> i < length lg \<Longrightarrow>
     \<not> attempt_failed t (lg ! i) \<Longrightarrow>
     length lg = i + 1 \<and>
     (case log_completion (lg ! i) of
        Returned raw s' \<Rightarrow>
          (\<exists>span v d. extractAndParseJson (tunnel_JSON_parse t) raw = Ok span v
             \<and> safeParse (tunnel_schema t) (Some v) = Inr d
             \<and> out = (case parse (tunnel_schema t) (Some v) of
                        Inr d' \<Rightarrow> Resolved d'
                      | Inl issues \<Rightarrow> ZodError issues))
      | Threw e \<Rightarrow> out = RunnerError e
      | ThrewTypeError \<Rightarrow> out = TypeError)"
proof (induction lg arbitrary: a fs0 lf intent s i)
  case Nil
  then show ?case by simp
next
  case (Cons entry lg)
  from Cons.prems(1) show ?case
  proof (cases rule: run_loop_cases)
    case (retry raw s' intent' calls f lg')
    show ?thesis
    proof (cases i)
      case 0
      with retry Cons.prems(3) show ?thesis by (simp add: attempt_failed_def)
    next
      case (Suc j)
      with retry Cons.prems(2,3) Cons.IH [of "a + 1" "fs0 @ [f]" "Some f" intent' s' j]
      show ?thesis by simp
    qed
  qed (use Cons.prems(2) in simp_all)
qed

lemma run_loop_all_failed:
  "run_loop t runner a fs0 lf intent s = (out, fs, lg) \<Longrightarrow> list_all (attempt_failed t) lg \<Longrightarrow>
     out = TunnelMaxRetriesError (max_retries_message t) fs
     \<and> (a \<le> tunnel_maxRetries t + 1 \<longrightarrow> a + int (length lg) = tunnel_maxRetries t + 1)"
proof (induction lg arbitrary: a fs0 lf intent s)
  case Nil
  then show ?case by (cases rule: run_loop_cases) simp_all
next
  case (Cons entry lg)
  from Cons.prems(1) show ?case
  proof (cases rule: run_loop_cases)
    case (retry raw s' intent' calls f lg')
    with Cons.prems(2) Cons.IH [of "a + 1" "fs0 @ [f]" "Some f" intent' s'] show ?thesis
      by simp
  qed (use Cons.prems(2) in \<open>simp_all add: attempt_failed_def\<close>)
qed

lemma failed_attempts_failures:
  "list_all (attempt_failed t) lg \<Longrightarrow>
     length (concat (map (attempt_failures t) lg)) = length lg
     \<and> (\<forall>k<length lg. \<exists>raw s. log_completion (lg ! k) = Returned raw s
           \<and> failureFromRaw t raw = Some (concat (map (attempt_failures t) lg) ! k))"
proof (induction lg)
  case Nil
  show ?case by simp
next
  case (Cons entry lg)
  from Cons.prems obtain raw s f where e: "log_completion entry = Returned raw s"
    "failureFromRaw t raw = Some f"
    by (auto simp: attempt_failed_def split: Completion.splits)
  then have af: "attempt_failures t entry = [f]" by (simp add: attempt_failures_def)
  from Cons have IH: "length (concat (map (attempt_failures t) lg)) = length lg"
    "\<And>k. k < length lg \<Longrightarrow> \<exists>raw s. log_completion (lg ! k) = Returned raw s
           \<and> failureFromRaw t raw = Some (concat (map (attempt_failures t) lg) ! k)"
    by simp_all
  show ?case
  proof (intro conjI allI impI)
    show "length (concat (map (attempt_failures t) (entry # lg))) = length (entry # lg)"
      using IH(1) af by simp
  next
    fix k assume "k < length (entry # lg)"
    then show "\<exists>raw s. log_completion ((entry # lg) ! k) = Returned raw s
           \<and> failureFromRaw t raw = Some (concat (map (attempt_failures t) (entry # lg)) ! k)"
      using IH(2) [of "k - 1"] af e by (cases k) auto
  qed
qed

lemma run_loop_before_last:
  assumes "run_loop t runner a fs0 lf intent s = (out, fs, lg)" "Suc i < length lg"
  shows "attempt_failed t (lg ! i)"
proof (rule ccontr)
  assume "\<not> attempt_failed t (lg ! i)"
  with run_loop_stops [OF assms(1), of i] assms(2) show False by simp
qed

lemma run_loop_last_not_failed:
  assumes "run_loop t runner a fs0 lf intent s = (out, fs, lg)" "k < length lg"
    "\<not> attempt_failed t (lg ! k)"
  shows "length lg = k + 1" "length fs = length fs0 + k"
    "i < k \<Longrightarrow> \<exists>raw' s'. log_completion (lg ! i) = Returned raw' s'
           \<and> failureFromRaw t raw' = Some (fs ! (length fs0 + i))"
proof -
  from run_loop_stops [OF assms] show len: "length lg = k + 1" by simp
  then have lg: "lg = take k lg @ [lg ! k]"
    by (metis Suc_eq_plus1 lessI take_Suc_conv_app_nth take_all_iff le_refl)
  have "\<forall>j<k. attempt_failed t (lg ! j)"
    using run_loop_before_last [OF assms(1)] len by simp
  then have all: "list_all (attempt_failed t) (take k lg)"
    using len by (simp add: list_all_length)
  from assms(3) have "attempt_failures t (lg ! k) = []"
    by (auto simp: attempt_failed_def attempt_failures_def split: Completion.splits)
  with run_loop_failures [OF assms(1)] lg
  have fs: "fs = fs0 @ concat (map (attempt_failures t) (take k lg))"
    by (metis (no_types, lifting) append_Nil2 concat.simps(1,2) concat_append list.simps(8,9) map_append)
  with failed_attempts_failures [OF all] len show "length fs = length fs0 + k" by simp
  show "\<exists>raw' s'. log_completion (lg ! i) = Returned raw' s'
           \<and> failureFromRaw t raw' = Some (fs ! (length fs0 + i))" if "i < k"
    using failed_attempts_failures [OF all] that len fs by simp
qed

text \<open>
  C2, amended. If on attempt \<open>k\<close> the span that the extractor isolates from the
  returned text, the balanced span that starts at the first \<open>{\<close> or \<open>[\<close>, decodes
  and passes the schema's \<open>safeParse\<close>, \<open>run\<close> ends right after attempt \<open>k\<close>:
  attempt \<open>k\<close> is the last invocation of the runner, \<open>failures\<close> holds the records of
  the \<open>k\<close> attempts before it and none for attempt \<open>k\<close>, and the outcome is not
  \<open>TunnelMaxRetriesError\<close>. The outcome is that of the second validation of the same
  decoded value, by \<open>schema.parse\<close>: \<open>run\<close> resolves with the value it returns, which
  is the validated value whenever \<open>parse\<close> answers as \<open>safeParse\<close> did, and rejects
  with its \<open>ZodError\<close> when it throws.
\<close>

theorem run_returns_first_valid:
  assumes "run t runner s0 = (out, fs, lg)"
    and "k < length lg"
    and "log_completion (lg ! k) = Returned raw s"
    and "extractAndParseJson (tunnel_JSON_parse t) raw = Found span v"
    and "safeParse (tunnel_schema t) (Some v) = Inr d"
  shows "out = (case parse (tunnel_schema t) (Some v) of
                  Inr d' \<Rightarrow> Resolved d'
                | Inl issues \<Rightarrow> ZodError issues)
     \<and> (parse (tunnel_schema t) (Some v) = Inr d \<longrightarrow> out = Resolved d)
     \<and> (\<forall>m fl. out \<noteq> TunnelMaxRetriesError m fl)
     \<and> length lg = k + 1
     \<and> ctx_attempt (log_context (lg ! k)) = int k \<and> int k \<le> tunnel_maxRetries t
     \<and> length fs = k
     \<and> (\<forall>i<k. \<exists>raw' s'. log_completion (lg ! i) = Returned raw' s'
                  \<and> failureFromRaw t raw' = Some (fs ! i))"
proof -
  from assms(1) have rl: "run_loop t runner 0 [] None [] s0 = (out, fs, lg)"
    by (simp add: run_def)
  from assms(4,5) have "failureFromRaw t raw = None"
    by (auto simp: failureFromRaw_None)
  with assms(3) have nf: "\<not> attempt_failed t (lg ! k)"
    by (simp add: attempt_failed_def)
  from run_loop_stops [OF rl assms(2) nf] assms(3,4,5)
  have out: "out = (case parse (tunnel_schema t) (Some v) of
                      Inr d' \<Rightarrow> Resolved d'
                    | Inl issues \<Rightarrow> ZodError issues)"
    by simp
  then have "parse (tunnel_schema t) (Some v) = Inr d \<longrightarrow> out = Resolved d"
    and "\<forall>m fl. out \<noteq> TunnelMaxRetriesError m fl"
    by (simp_all split: sum.splits)
  moreover from run_loop_attempts [OF rl assms(2)]
  have "ctx_attempt (log_context (lg ! k)) = int k" "int k \<le> tunnel_maxRetries t" by simp_all
  moreover note run_loop_last_not_failed [OF rl assms(2) nf]
  ultimately show ?thesis using out by simp
qed

theorem run_returns_first_valid_witness:
  \<open>1 < length (snd (snd (run (example_tunnel 2 4000) runner_valid_on_retry ())))
   \<and> log_completion (snd (snd (run (example_tunnel 2 4000) runner_valid_on_retry ())) ! 1)
       = Returned ''Here it is: {"ok":true}'' ()
   \<and> extractAndParseJson (tunnel_JSON_parse (example_tunnel 2 4000)) ''Here it is: {"ok":true}''
       = Found ''{"ok":true}'' ''{"ok":true}''
   \<and> safeParse (tunnel_schema (example_tunnel 2 4000)) (Some ''{"ok":true}'') = Inr True
   \<and> parse (tunnel_schema (example_tunnel 2 4000)) (Some ''{"ok":true}'') = Inr True
   \<and> fst (run (example_tunnel 2 4000) runner_valid_on_retry ()) = Resolved True
   \<and> length (snd (snd (run (example_tunnel 2 4000) runner_valid_on_retry ()))) = 2
   \<and> length (fst (snd (run (example_tunnel 2 4000) runner_valid_on_retry ()))) = 1\<close>
proof -
  let ?t = "example_tunnel 2 4000"
  let ?r = "run ?t runner_valid_on_retry ()"
  have h1: "?r = (fst ?r, fst (snd ?r), snd (snd ?r))" by simp
  have h2: "1 < length (snd (snd ?r))" by code_simp
  have h3: \<open>log_completion (snd (snd ?r) ! 1) = Returned ''Here it is: {"ok":true}'' ()\<close>
    by code_simp
  have h4: \<open>extractAndParseJson (tunnel_JSON_parse ?t) ''Here it is: {"ok":true}''
       = Found ''{"ok":true}'' ''{"ok":true}''\<close>
    by code_simp
  have h5: \<open>safeParse (tunnel_schema ?t) (Some ''{"ok":true}'') = Inr True\<close>
    by code_simp
  have h6: \<open>parse (tunnel_schema ?t) (Some ''{"ok":true}'') = Inr True\<close>
    by code_simp
  from run_returns_first_valid [OF h1 h2 h3 h4 h5] h2 h3 h4 h5 h6 show ?thesis
    by simp
qed

text \<open>
  C2 as stated fails in two ways. When the valid span is not the first one: the text
  \<open>[1] {"ok":true}\<close> contains the balanced span \<open>{"ok":true}\<close>, which decodes and
  passes the schema, but the extractor isolates \<open>[1]\<close>, the attempt fails and with
  \<open>maxRetries = 0\<close> the run ends in \<open>TunnelMaxRetriesError\<close>. And when the second
  validation rejects what the first accepted: the text \<open>{"ok":true}\<close> passes
  \<open>safeParse\<close>, \<open>parse\<close> throws, and the run rejects with that \<open>ZodError\<close> instead of
  returning the validated value.
\<close>

theorem run_returns_first_valid_counterexample:
  \<open>log_completion (snd (snd (run (example_tunnel 0 4000) runner_two_spans ())) ! 0)
     = Returned ''[1] {"ok":true}'' ()
   \<and> js_includes ''[1] {"ok":true}'' ''{"ok":true}''
   \<and> extractJsonText ''{"ok":true}'' = Some ''{"ok":true}''
   \<and> tunnel_JSON_parse (example_tunnel 0 4000) ''{"ok":true}'' = Inr ''{"ok":true}''
   \<and> safeParse (tunnel_schema (example_tunnel 0 4000)) (Some ''{"ok":true}'') = Inr True
   \<and> fst (run (example_tunnel 0 4000) runner_two_spans ())
       = TunnelMaxRetriesError ''Failed to produce valid output after 1 attempts.''
           [Failure_schema ''Output JSON did not match the schema.'' ''[1] {"ok":true}'' ''[1]''
              ''- <root>: Expected object, received array'']
   \<and> log_completion
         (snd (snd (run (example_tunnel 0 4000\<lparr>tunnel_schema := schema_rejecting_second_pass\<rparr>)
                      runner_always_valid ())) ! 0)
       = Returned ''{"ok":true}'' ()
   \<and> extractAndParseJson
         (tunnel_JSON_parse (example_tunnel 0 4000\<lparr>tunnel_schema := schema_rejecting_second_pass\<rparr>))
         ''{"ok":true}''
       = Found ''{"ok":true}'' ''{"ok":true}''
   \<and> safeParse schema_rejecting_second_pass (Some ''{"ok":true}'') = Inr True
   \<and> fst (run (example_tunnel 0 4000\<lparr>tunnel_schema := schema_rejecting_second_pass\<rparr>)
             runner_always_valid ())
       = ZodError [ZodIssue [] ''Invalid input'']\<close>
  by code_simp

text \<open>
  C8. If the runner throws on attempt \<open>k\<close>, \<open>run\<close> rejects with that very error:
  attempt \<open>k\<close> is the last invocation, no failure record is added for it, and the
  outcome is not \<open>TunnelMaxRetriesError\<close>.
\<close>

theorem run_propagates_runner_error:
  assumes "run t runner s0 = (out, fs, lg)"
    and "k < length lg"
    and "log_completion (lg ! k) = Threw e"
  shows "out = RunnerError e
     \<and> length lg = k + 1
     \<and> ctx_attempt (log_context (lg ! k)) = int k
     \<and> length fs = k
     \<and> (\<forall>i<k. \<exists>raw' s'. log_completion (lg ! i) = Returned raw' s'
                  \<and> failureFromRaw t raw' = Some (fs ! i))"
proof -
  from assms(1) have rl: "run_loop t runner 0 [] None [] s0 = (out, fs, lg)"
    by (simp add: run_def)
  from assms(3) have nf: "\<not> attempt_failed t (lg ! k)"
    by (simp add: attempt_failed_def)
  from run_loop_stops [OF rl assms(2) nf] assms(3) have "out = RunnerError e" by simp
  moreover from run_loop_attempts [OF rl assms(2)]
  have "ctx_attempt (log_context (lg ! k)) = int k" by simp
  moreover note run_loop_last_not_failed [OF rl assms(2) nf]
  ultimately show ?thesis by simp
qed

theorem run_propagates_runner_error_witness:
  \<open>1 < length (snd (snd (run (example_tunnel 2 4000) runner_throws_on_retry ())))
   \<and> log_completion (snd (snd (run (example_tunnel 2 4000) runner_throws_on_retry ())) ! 1)
       = Threw ''network down''
   \<and> fst (run (example_tunnel 2 4000) runner_throws_on_retry ()) = RunnerError ''network down''
   \<and> length (snd (snd (run (example_tunnel 2 4000) runner_throws_on_retry ()))) = 2
   \<and> length (fst (snd (run (example_tunnel 2 4000) runner_throws_on_retry ()))) = 1\<close>
proof -
  let ?t = "example_tunnel 2 4000"
  let ?r = "run ?t runner_throws_on_retry ()"
  have h1: "?r = (fst ?r, fst (snd ?r), snd (snd ?r))" by simp
  have h2: "1 < length (snd (snd ?r))" by code_simp
  have h3: \<open>log_completion (snd (snd ?r) ! 1) = Threw ''network down''\<close>
    by code_simp
  from run_propagates_runner_error [OF h1 h2 h3] h2 h3 show ?thesis
    by simp
qed

section \<open>The second extraction on the success path\<close>

lemma failureFromRaw_spec_validate:
  "failureFromRaw t raw = (case spec_validate t raw of Inl f \<Rightarrow> Some f | Inr d \<Rightarrow> None)"
  by (simp add: failureFromRaw_def spec_validate_def
        split: JsonExtractionResult.splits sum.splits)

lemma spec_validate_Inr:
  "spec_validate t raw = Inr d \<longleftrightarrow>
     (\<exists>span v. extractAndParseJson (tunnel_JSON_parse t) raw = Ok span v
        \<and> safeParse (tunnel_schema t) (Some v) = Inr d)"
  by (auto simp: spec_validate_def split: JsonExtractionResult.splits sum.splits)

lemma reparsed_second_validation:
  "extractAndParseJson (tunnel_JSON_parse t) raw = Ok span v \<Longrightarrow>
     reparsed t raw = parse (tunnel_schema t) (Some v)"
  by (simp add: reparsed_def)

lemma run_loop_spec_run_loop:
  assumes agree: "\<And>v d. safeParse (tunnel_schema t) v = Inr d \<Longrightarrow> parse (tunnel_schema t) v = Inr d"
  shows "run_loop t runner a fs0 lf intent s = spec_run_loop t runner a fs0 lf intent s"
proof (induction "nat (tunnel_maxRetries t + 1 - a)" arbitrary: a fs0 lf intent s)
  case 0
  then have "\<not> a \<le> tunnel_maxRetries t" by simp
  then show ?case
    by (subst spec_run_loop.simps) (simp add: run_loop_exhausted max_retries_message_def)
next
  case (Suc n)
  then have le: "a \<le> tunnel_maxRetries t" and n: "n = nat (tunnel_maxRetries t + 1 - (a + 1))"
    by simp_all
  note IH = Suc.hyps(1) [OF n]
  have same: "reparsed t raw = Inr d" if "spec_validate t raw = Inr d" for raw d
  proof -
    from that obtain span v where "extractAndParseJson (tunnel_JSON_parse t) raw = Ok span v"
      "safeParse (tunnel_schema t) (Some v) = Inr d"
      by (auto simp: spec_validate_Inr)
    with agree show ?thesis by (simp add: reparsed_second_validation)
  qed
  show ?case
    by (subst spec_run_loop.simps)
       (auto simp: le run_loop_step IH failureFromRaw_spec_validate Let_def
             reparsed_def [symmetric] same
             split: prod.splits Completion.splits sum.splits)
qed

text \<open>
  C9, amended. On the success path \<open>run\<close> returns what \<open>schema.parse\<close> makes of the
  value decoded by the second extraction, or rejects with the \<open>ZodError\<close> it throws,
  and that decoded value is the very value the first validation accepted. For a schema
  whose \<open>parse\<close> answers as its \<open>safeParse\<close> did on every accepted value, the
  returned value is therefore the value of the first validation, and \<open>run\<close> behaves
  as the loop that validates once and returns that value: same outcome, same failures,
  same invocations of the runner.
\<close>

theorem run_reparse_unobservable:
  "(run t runner s0 = (out, fs, lg) \<and> k < length lg \<and> log_completion (lg ! k) = Returned raw s
      \<and> failureFromRaw t raw = None \<longrightarrow>
      out = (case reparsed t raw of Inr d \<Rightarrow> Resolved d | Inl issues \<Rightarrow> ZodError issues))
   \<and> (failureFromRaw t raw = None \<longrightarrow>
      (\<exists>span v d. extractAndParseJson (tunnel_JSON_parse t) raw = Found span v
         \<and> safeParse (tunnel_schema t) (Some v) = Inr d
         \<and> spec_validate t raw = Inr d
         \<and> reparsed t raw = parse (tunnel_schema t) (Some v)))
   \<and> ((\<forall>v d. safeParse (tunnel_schema t) v = Inr d \<longrightarrow> parse (tunnel_schema t) v = Inr d) \<longrightarrow>
        run t runner s0 = spec_run t runner s0)"
proof (intro conjI impI)
  assume a: "run t runner s0 = (out, fs, lg) \<and> k < length lg
      \<and> log_completion (lg ! k) = Returned raw s \<and> failureFromRaw t raw = None"
  then have rl: "run_loop t runner 0 [] None [] s0 = (out, fs, lg)" and k: "k < length lg"
    and c: "log_completion (lg ! k) = Returned raw s"
    by (simp_all add: run_def)
  from a c have nf: "\<not> attempt_failed t (lg ! k)"
    by (simp add: attempt_failed_def)
  from run_loop_stops [OF rl k nf] c
  obtain span v where "extractAndParseJson (tunnel_JSON_parse t) raw = Ok span v"
    "out = (case parse (tunnel_schema t) (Some v) of
              Inr d' \<Rightarrow> Resolved d'
            | Inl issues \<Rightarrow> ZodError issues)"
    by auto
  then show "out = (case reparsed t raw of Inr d \<Rightarrow> Resolved d | Inl issues \<Rightarrow> ZodError issues)"
    by (simp add: reparsed_second_validation)
next
  assume "failureFromRaw t raw = None"
  then obtain d where d: "spec_validate t raw = Inr d"
    by (auto simp: failureFromRaw_spec_validate split: sum.splits)
  then obtain span v where "extractAndParseJson (tunnel_JSON_parse t) raw = Ok span v"
    "safeParse (tunnel_schema t) (Some v) = Inr d"
    by (auto simp: spec_validate_Inr)
  with d reparsed_second_validation [of t raw span v]
  show "\<exists>span v d. extractAndParseJson (tunnel_JSON_parse t) raw = Found span v
         \<and> safeParse (tunnel_schema t) (Some v) = Inr d
         \<and> spec_validate t raw = Inr d
         \<and> reparsed t raw = parse (tunnel_schema t) (Some v)"
    by blast
next
  assume "\<forall>v d. safeParse (tunnel_schema t) v = Inr d \<longrightarrow> parse (tunnel_schema t) v = Inr d"
  then show "run t runner s0 = spec_run t runner s0"
    by (simp add: run_def spec_run_def run_loop_spec_run_loop)
qed

theorem run_reparse_unobservable_witness:
  \<open>failureFromRaw (example_tunnel 2 4000) ''Here it is: {"ok":true}'' = None
   \<and> spec_validate (example_tunnel 2 4000) ''Here it is: {"ok":true}'' = Inr True
   \<and> reparsed (example_tunnel 2 4000) ''Here it is: {"ok":true}'' = Inr True
   \<and> fst (spec_run (example_tunnel 2 4000) runner_valid_on_retry ()) = Resolved True
   \<and> fst (run (example_tunnel 2 4000) runner_valid_on_retry ()) = Resolved True
   \<and> run (example_tunnel 2 4000) runner_valid_on_retry ()
       = spec_run (example_tunnel 2 4000) runner_valid_on_retry ()\<close>
proof -
  let ?t = "example_tunnel 2 4000"
  have h: \<open>failureFromRaw ?t ''Here it is: {"ok":true}'' = None\<close> by code_simp
  have v: \<open>spec_validate ?t ''Here it is: {"ok":true}'' = Inr True\<close> by code_simp
  have p: \<open>reparsed ?t ''Here it is: {"ok":true}'' = Inr True\<close> by code_simp
  have r: \<open>fst (spec_run ?t runner_valid_on_retry ()) = Resolved True\<close> by code_simp
  have agree: "\<forall>v d. safeParse (tunnel_schema ?t) v = Inr d \<longrightarrow> parse (tunnel_schema ?t) v = Inr d"
    by (simp add: example_tunnel_def example_schema_def)
  from run_reparse_unobservable [where t = ?t and runner = runner_valid_on_retry and ?s0.0 = "()"]
    agree
  have "run ?t runner_valid_on_retry () = spec_run ?t runner_valid_on_retry ()"
    by blast
  with h v p r show ?thesis by simp
qed

text \<open>
  C9 as stated fails for a schema whose second validation answers otherwise: the text
  \<open>{"ok":true}\<close> passes the first validation with the value \<open>True\<close>, the second
  validation of the same decoded value gives \<open>False\<close>, and \<open>run\<close> returns \<open>False\<close>
  where the loop that reuses the first value returns \<open>True\<close>.
\<close>

theorem run_reparse_unobservable_counterexample:
  \<open>log_completion
       (snd (snd (run (example_tunnel 0 4000\<lparr>tunnel_schema := schema_changing_second_pass\<rparr>)
                    runner_always_valid ())) ! 0)
     = Returned ''{"ok":true}'' ()
   \<and> failureFromRaw (example_tunnel 0 4000\<lparr>tunnel_schema := schema_changing_second_pass\<rparr>)
        ''{"ok":true}'' = None
   \<and> spec_validate (example_tunnel 0 4000\<lparr>tunnel_schema := schema_changing_second_pass\<rparr>)
        ''{"ok":true}'' = Inr True
   \<and> fst (run (example_tunnel 0 4000\<lparr>tunnel_schema := schema_changing_second_pass\<rparr>)
             runner_always_valid ())
       = Resolved False
   \<and> fst (spec_run (example_tunnel 0 4000\<lparr>tunnel_schema := schema_changing_second_pass\<rparr>)
             runner_always_valid ())
       = Resolved True\<close>
  by code_simp

section \<open>The prompts of the retries\<close>

lemma trimEnd_prefix: "\<exists>zs. ys = rev (dropWhile P (rev ys)) @ zs"
  by (metis rev_append rev_rev_ident takeWhile_dropWhile_id)

lemma trim_trim: "trim (trim s) = trim s"
proof -
  define ys where "ys = dropWhile isWhiteSpace s"
  define e where "e = rev (dropWhile isWhiteSpace (rev ys))"
  have e_end: "rev (dropWhile isWhiteSpace (rev e)) = e"
    by (simp add: e_def)
  have "dropWhile isWhiteSpace e = e"
  proof (cases e)
    case Nil
    then show ?thesis by simp
  next
    case (Cons x xs)
    from trimEnd_prefix [of ys isWhiteSpace] obtain zs where "ys = e @ zs"
      by (auto simp: e_def)
    with Cons have "ys \<noteq> []" "hd ys = x" by auto
    then have "\<not> isWhiteSpace x"
      using hd_dropWhile [of isWhiteSpace s] by (auto simp: ys_def)
    with Cons show ?thesis by simp
  qed
  with e_end show ?thesis
    by (simp add: trim_def ys_def [symmetric] e_def [symmetric])
qed

lemma buildFixPrompt_parts:
  "buildFixPrompt t userPrompt failure =
     join (fix_parts_before t failure @ original_context_part (trim userPrompt)
           @ [previous_output_part t failure]) ''\<newline>\<newline>''"
  by (cases failure)
     (simp_all add: buildFixPrompt_def fix_parts_before_def original_context_part_def
        previous_output_part_def Let_def)

lemma locked_intent_snoc:
  "locked_intent (us @ [u]) = (if trim u = [] then locked_intent us else trim u)"
  by (simp add: locked_intent_def Let_def)

lemma foldl_locked_intent:
  "foldl (\<lambda>i u. if trim u = [] then i else trim u) [] us = locked_intent us"
proof (induction us rule: rev_induct)
  case Nil
  show ?case by (simp add: locked_intent_def)
next
  case (snoc u us)
  then show ?case by (simp add: locked_intent_snoc)
qed

lemma injectSchema_first:
  "injectSchema t 0 lf u intent =
     (Some (buildBasePrompt t (trim u)), if trim u = [] then intent else trim u)"
  by (simp add: injectSchema_def Let_def)

lemma injectSchema_retry:
  "a \<noteq> 0 \<Longrightarrow> injectSchema t a (Some f) u intent = (Some (buildFixPrompt t intent f), intent)"
  by (simp add: injectSchema_def Let_def)

lemma call_runner_first_attempt_aux:
  assumes inj: "\<And>u i. inject u i
                 = (Some (buildBasePrompt t (trim u)), if trim u = [] then i else trim u)"
  shows "call_runner inject sc intent = (c, intent', calls) \<Longrightarrow>
     intent' = foldl (\<lambda>i u. if trim u = [] then i else trim u) intent (map fst calls)
     \<and> (\<forall>(u, p) \<in> set calls. p = buildBasePrompt t (trim u))"
proof (induction sc arbitrary: intent c intent' calls)
  case (InjectSchema userPrompt k)
  let ?i1 = "if trim userPrompt = [] then intent else trim userPrompt"
  obtain c2 i2 calls2 where rec:
    "call_runner inject (k (buildBasePrompt t (trim userPrompt))) ?i1 = (c2, i2, calls2)"
    by (metis prod_cases3)
  from InjectSchema.IH [OF _ rec]
  have "i2 = foldl (\<lambda>i u. if trim u = [] then i else trim u) ?i1 (map fst calls2)
        \<and> (\<forall>(u, p) \<in> set calls2. p = buildBasePrompt t (trim u))"
    by simp
  moreover from InjectSchema.prems rec inj [of userPrompt intent]
  have "intent' = i2" "calls = (userPrompt, buildBasePrompt t (trim userPrompt)) # calls2"
    by simp_all
  ultimately show ?case by simp
qed simp_all

lemma call_runner_first_attempt:
  "call_runner (injectSchema t 0 lf) sc intent = (c, intent', calls) \<Longrightarrow>
     intent' = foldl (\<lambda>i u. if trim u = [] then i else trim u) intent (map fst calls)
     \<and> (\<forall>(u, p) \<in> set calls. p = buildBasePrompt t (trim u))"
  by (rule call_runner_first_attempt_aux [of "injectSchema t 0 lf"]) (rule injectSchema_first)

lemma call_runner_retry_aux:
  assumes inj: "\<And>u i. inject u i = (Some (buildFixPrompt t i f), i)"
  shows "call_runner inject sc intent = (c, intent', calls) \<Longrightarrow>
     intent' = intent \<and> (\<forall>(u, p) \<in> set calls. p = buildFixPrompt t intent f)"
proof (induction sc arbitrary: c intent' calls)
  case (InjectSchema userPrompt k)
  obtain c2 i2 calls2 where rec:
    "call_runner inject (k (buildFixPrompt t intent f)) intent = (c2, i2, calls2)"
    by (metis prod_cases3)
  from InjectSchema.IH [OF _ rec]
  have "i2 = intent \<and> (\<forall>(u, p) \<in> set calls2. p = buildFixPrompt t intent f)"
    by simp
  moreover from InjectSchema.prems rec inj [of userPrompt intent]
  have "intent' = i2" "calls = (userPrompt, buildFixPrompt t intent f) # calls2"
    by simp_all
  ultimately show ?case by simp
qed simp_all

lemma call_runner_retry:
  "a \<noteq> 0 \<Longrightarrow> call_runner (injectSchema t a (Some f)) sc intent = (c, intent', calls) \<Longrightarrow>
     intent' = intent \<and> (\<forall>(u, p) \<in> set calls. p = buildFixPrompt t intent f)"
  by (rule call_runner_retry_aux [of "injectSchema t a (Some f)"]) (simp_all add: injectSchema_retry)

lemma run_loop_first_context:
  "run_loop t runner a fs0 lf intent s = (out, fs, lg) \<Longrightarrow> lg \<noteq> [] \<Longrightarrow>
     ctx_lastFailure (log_context (lg ! 0)) = lf"
  by (cases rule: run_loop_cases) auto

lemma run_loop_last_failure_chain:
  "run_loop t runner a fs0 lf intent s = (out, fs, lg) \<Longrightarrow> Suc i < length lg \<Longrightarrow>
     \<exists>raw s' f. log_completion (lg ! i) = Returned raw s' \<and> failureFromRaw t raw = Some f
        \<and> ctx_lastFailure (log_context (lg ! Suc i)) = Some f"
proof (induction lg arbitrary: a fs0 lf intent s i)
  case Nil
  then show ?case by simp
next
  case (Cons entry lg)
  from Cons.prems(1) show ?case
  proof (cases rule: run_loop_cases)
    case (retry raw s' intent' calls f lg')
    show ?thesis
    proof (cases i)
      case 0
      with retry Cons.prems(2) run_loop_first_context [OF retry(4)] show ?thesis
        by auto
    next
      case (Suc j)
      with retry Cons.prems(2) Cons.IH [of "a + 1" "fs0 @ [f]" "Some f" intent' s' j]
      show ?thesis by simp
    qed
  qed (use Cons.prems(2) in simp_all)
qed

lemma run_loop_retry_prompts:
  "run_loop t runner a fs0 (Some f0) intent s = (out, fs, lg) \<Longrightarrow> 0 < a \<Longrightarrow> i < length lg \<Longrightarrow>
     (u, p) \<in> set (log_calls (lg ! i)) \<Longrightarrow>
     \<exists>f. ctx_lastFailure (log_context (lg ! i)) = Some f \<and> p = buildFixPrompt t intent f"
proof (induction lg arbitrary: a fs0 f0 s i)
  case Nil
  then show ?case by simp
next
  case (Cons entry lg)
  from Cons.prems(2) have a: "a \<noteq> 0" by simp
  from Cons.prems(1) show ?case
  proof (cases rule: run_loop_cases)
    case exhausted
    then show ?thesis by simp
  next
    case (threw e intent' calls)
    with call_runner_retry [OF a threw(2)] Cons.prems(3,4) show ?thesis by auto
  next
    case (type_error intent' calls)
    with call_runner_retry [OF a type_error(2)] Cons.prems(3,4) show ?thesis by auto
  next
    case (valid raw s' intent' calls span v d)
    with call_runner_retry [OF a valid(2)] Cons.prems(3,4) show ?thesis by auto
  next
    case (retry raw s' intent' calls f lg')
    note cr = call_runner_retry [OF a retry(2)]
    show ?thesis
    proof (cases i)
      case 0
      with retry cr Cons.prems(4) show ?thesis by auto
    next
      case (Suc j)
      from Cons.prems(2) have "0 < a + 1" by simp
      with Suc retry cr Cons.prems(3,4) Cons.IH [of "a + 1" "fs0 @ [f]" f s' j]
      show ?thesis by simp
    qed
  qed
qed

lemma run_corrective_prompt:
  assumes "run t runner s0 = (out, fs, lg)" "0 < k" "k < length lg"
    "(u, p) \<in> set (log_calls (lg ! k))"
  shows "\<exists>raw s f. log_completion (lg ! (k - 1)) = Returned raw s \<and> failureFromRaw t raw = Some f
           \<and> p = buildFixPrompt t (locked_intent (map fst (log_calls (lg ! 0)))) f"
proof -
  from assms(1) have rl: "run_loop t runner 0 [] None [] s0 = (out, fs, lg)"
    by (simp add: run_def)
  from assms(2,3) have "Suc (k - 1) < length lg" by simp
  from run_loop_last_failure_chain [OF rl this] assms(2)
  obtain raw s f where prev: "log_completion (lg ! (k - 1)) = Returned raw s"
    "failureFromRaw t raw = Some f" "ctx_lastFailure (log_context (lg ! k)) = Some f"
    by auto
  from rl show ?thesis
  proof (cases rule: run_loop_cases)
    case (retry raw0 s' intent' calls f0 lg')
    from call_runner_first_attempt [OF retry(2)] retry(5)
    have intent': "intent' = locked_intent (map fst (log_calls (lg ! 0)))"
      by (simp add: foldl_locked_intent)
    from retry(5) assms(2,3,4) have "k - 1 < length lg'" "(u, p) \<in> set (log_calls (lg' ! (k - 1)))"
      by (simp_all add: nth_Cons')
    from run_loop_retry_prompts [OF _ _ this, of t runner 1 "[f0]" f0 intent' s' out fs] retry(4)
    obtain f' where "ctx_lastFailure (log_context (lg' ! (k - 1))) = Some f'"
      "p = buildFixPrompt t intent' f'"
      by auto
    with retry(5) assms(2) prev(3) have "p = buildFixPrompt t intent' f"
      by (simp add: nth_Cons')
    with prev intent' show ?thesis by blast
  qed (use assms(2,3) in simp_all)
qed

lemma failureFromRaw_raw: "failureFromRaw t raw = Some f \<Longrightarrow> failure_raw f = raw"
  by (auto simp: failureFromRaw_def split: JsonExtractionResult.splits sum.splits reason.splits)

lemma join_snoc: "xs \<noteq> [] \<Longrightarrow> join (xs @ [x]) sep = join xs sep @ sep @ x"
  by (induction xs sep rule: join.induct) simp_all

lemma locked_intent_single: "locked_intent [u] = trim u"
  by (simp add: locked_intent_def)

lemma locked_intent_empty: "(\<forall>u \<in> set us. trim u = []) \<Longrightarrow> locked_intent us = []"
  by (simp add: locked_intent_def filter_empty_conv)

lemma trim_locked_intent: "trim (locked_intent us) = locked_intent us"
proof (cases "filter (\<lambda>u. u \<noteq> []) (map trim us) = []")
  case True
  then show ?thesis by (simp add: locked_intent_def trim_def)
next
  case False
  then have "last (filter (\<lambda>u. u \<noteq> []) (map trim us)) \<in> set (map trim us)"
    by (metis filter_is_subset last_in_set subsetD)
  then obtain u where "last (filter (\<lambda>u. u \<noteq> []) (map trim us)) = trim u" by auto
  with False show ?thesis by (simp add: locked_intent_def trim_trim)
qed

lemma failureFromRaw_schema:
  "failureFromRaw t raw = Some f \<Longrightarrow>
     (failure_type f = type_schema) =
     (\<exists>span v issues. extractAndParseJson (tunnel_JSON_parse t) raw = Found span v
        \<and> safeParse (tunnel_schema t) (Some v) = Inl issues
        \<and> f = Failure_schema ''Output JSON did not match the schema.'' raw span
                (formatZodIssues issues))"
  by (auto simp: failureFromRaw_def split: JsonExtractionResult.splits sum.splits reason.splits)

lemma fix_parts_before_nonempty: "fix_parts_before t f \<noteq> []"
  by (simp add: fix_parts_before_def)

text \<open>
  C6, amended. On every attempt after a failed one, the prompt \<open>injectSchema\<close> returns
  is the following parts in this order, joined by blank lines: the trimmed
  \<open>systemPrompt\<close> when configured and not blank, the two lines of the fixed preamble,
  the strict output rules with the rendered schema description, the previous failure's
  message, the formatted schema issues exactly when the previous failure is a schema
  mismatch, the locked intent under its label unless it is empty, and the previous
  attempt's raw output as \<open>truncate\<close> gives it: in full up to \<open>maxFailureOutputChars\<close>
  characters, cut there and marked beyond.
\<close>

theorem corrective_prompt_contents:
  assumes "run t runner s0 = (out, fs, lg)"
    and "0 < k" and "k < length lg"
    and "(userPrompt, prompt) \<in> set (log_calls (lg ! k))"
  shows "\<exists>raw s f. log_completion (lg ! (k - 1)) = Returned raw s \<and> failureFromRaw t raw = Some f
     \<and> prompt =
         join
           ((case systemPrompt (tunnel_options t) of
               None \<Rightarrow> []
             | Some sp \<Rightarrow> if trim sp \<noteq> [] then [trim sp] else [])
            @ [''Your previous response was invalid.'',
               ''Return ONLY corrected JSON.'',
               ''Return ONLY a valid JSON value that can be parsed by JSON.parse().\<newline>''
               @ ''Do not wrap the JSON in Markdown fences.\<newline>''
               @ ''The JSON MUST conform to this TypeScript definition:\<newline>''
               @ ''```ts\<newline>'' @ schemaTs t @ ''\<newline>```'',
               ''Validation problems:\<newline>'' @ failure_message f]
            @ (case f of
                 Failure_schema m r jt iss \<Rightarrow> [''Schema issues:\<newline>'' @ iss]
               | _ \<Rightarrow> [])
            @ (if locked_intent (map fst (log_calls (lg ! 0))) = [] then []
               else [''Original request context:\<newline>''
                     @ locked_intent (map fst (log_calls (lg ! 0)))])
            @ [''Previous output:\<newline>```text\<newline>'' @ truncate t raw @ ''\<newline>```''])
           ''\<newline>\<newline>''
     \<and> (failure_type f = type_schema) =
         (\<exists>span v issues. extractAndParseJson (tunnel_JSON_parse t) raw = Found span v
            \<and> safeParse (tunnel_schema t) (Some v) = Inl issues
            \<and> f = Failure_schema ''Output JSON did not match the schema.'' raw span
                    (formatZodIssues issues))"
proof -
  from run_corrective_prompt [OF assms]
  obtain raw s f where prev: "log_completion (lg ! (k - 1)) = Returned raw s"
    "failureFromRaw t raw = Some f"
    and p: "prompt = buildFixPrompt t (locked_intent (map fst (log_calls (lg ! 0)))) f"
    by blast
  have rules: "STRICT_RULES t =
      ''Return ONLY a valid JSON value that can be parsed by JSON.parse().\<newline>''
      @ ''Do not wrap the JSON in Markdown fences.\<newline>''
      @ ''The JSON MUST conform to this TypeScript definition:\<newline>''
      @ ''```ts\<newline>'' @ schemaTs t @ ''\<newline>```''"
    by (simp add: STRICT_RULES_def)
  from p have "prompt = join
           (systemPrompt_parts t
            @ [''Your previous response was invalid.'', ''Return ONLY corrected JSON.'',
               STRICT_RULES t, ''Validation problems:\<newline>'' @ failure_message f]
            @ (case f of
                 Failure_schema m r jt iss \<Rightarrow> [''Schema issues:\<newline>'' @ iss]
               | _ \<Rightarrow> [])
            @ (if locked_intent (map fst (log_calls (lg ! 0))) = [] then []
               else [''Original request context:\<newline>''
                     @ locked_intent (map fst (log_calls (lg ! 0)))])
            @ [''Previous output:\<newline>```text\<newline>'' @ truncate t raw @ ''\<newline>```''])
           ''\<newline>\<newline>''"
    by (simp only: buildFixPrompt_parts trim_locked_intent fix_parts_before_def
          original_context_part_def previous_output_part_def failureFromRaw_raw [OF prev(2)]
          append_assoc)
  then have "prompt = join
           ((case systemPrompt (tunnel_options t) of
               None \<Rightarrow> []
             | Some sp \<Rightarrow> if trim sp \<noteq> [] then [trim sp] else [])
            @ [''Your previous response was invalid.'',
               ''Return ONLY corrected JSON.'',
               ''Return ONLY a valid JSON value that can be parsed by JSON.parse().\<newline>''
               @ ''Do not wrap the JSON in Markdown fences.\<newline>''
               @ ''The JSON MUST conform to this TypeScript definition:\<newline>''
               @ ''```ts\<newline>'' @ schemaTs t @ ''\<newline>```'',
               ''Validation problems:\<newline>'' @ failure_message f]
            @ (case f of
                 Failure_schema m r jt iss \<Rightarrow> [''Schema issues:\<newline>'' @ iss]
               | _ \<Rightarrow> [])
            @ (if locked_intent (map fst (log_calls (lg ! 0))) = [] then []
               else [''Original request context:\<newline>''
                     @ locked_intent (map fst (log_calls (lg ! 0)))])
            @ [''Previous output:\<newline>```text\<newline>'' @ truncate t raw @ ''\<newline>```''])
           ''\<newline>\<newline>''"
    by (simp only: rules systemPrompt_parts_def)
  with prev failureFromRaw_schema [OF prev(2)] show ?thesis by blast
qed

theorem corrective_prompt_contents_witness:
  \<open>1 < length (snd (snd (run (example_tunnel 2 4000) runner_valid_on_retry ())))
   \<and> log_completion (snd (snd (run (example_tunnel 2 4000) runner_valid_on_retry ())) ! 0)
       = Returned ''{"ok":1}'' ()
   \<and> failureFromRaw (example_tunnel 2 4000) ''{"ok":1}''
       = Some (Failure_schema ''Output JSON did not match the schema.'' ''{"ok":1}'' ''{"ok":1}''
                 ''- ok: Expected boolean, received number'')
   \<and> snd (hd (log_calls (snd (snd (run (example_tunnel 2 4000) runner_valid_on_retry ())) ! 1)))
       = join [''Your previous response was invalid.'',
               ''Return ONLY corrected JSON.'',
               STRICT_RULES (example_tunnel 2 4000),
               ''Validation problems:\<newline>Output JSON did not match the schema.'',
               ''Schema issues:\<newline>- ok: Expected boolean, received number'',
               ''Original request context:\<newline>Get ok'',
               ''Previous output:\<newline>```text\<newline>{"ok":1}\<newline>```''] ''\<newline>\<newline>''\<close>
proof -
  let ?t = "example_tunnel 2 4000"
  let ?r = "run ?t runner_valid_on_retry ()"
  let ?lg = "snd (snd ?r)"
  let ?c = "hd (log_calls (?lg ! 1))"
  let ?F = \<open>Failure_schema ''Output JSON did not match the schema.'' ''{"ok":1}'' ''{"ok":1}''
                 ''- ok: Expected boolean, received number''\<close>
  have h1: "?r = (fst ?r, fst (snd ?r), ?lg)" by simp
  have h3: "1 < length ?lg" by code_simp
  have "log_calls (?lg ! 1) \<noteq> []" by code_simp
  then have h4: "(fst ?c, snd ?c) \<in> set (log_calls (?lg ! 1))" by simp
  have c0: \<open>log_completion (?lg ! 0) = Returned ''{"ok":1}'' ()\<close> by code_simp
  have fF: \<open>failureFromRaw ?t ''{"ok":1}'' = Some ?F\<close> by code_simp
  have li: "locked_intent (map fst (log_calls (?lg ! 0))) = ''Get ok''" by code_simp
  have tr: \<open>truncate ?t ''{"ok":1}'' = ''{"ok":1}''\<close> by code_simp
  have sp: "systemPrompt (tunnel_options ?t) = None" by (simp add: example_tunnel_def)
  from corrective_prompt_contents [OF h1 _ h3 h4]
  obtain raw s f where "log_completion (?lg ! 0) = Returned raw s" "failureFromRaw ?t raw = Some f"
    and p: "snd ?c =
         join
           ((case systemPrompt (tunnel_options ?t) of
               None \<Rightarrow> []
             | Some sp \<Rightarrow> if trim sp \<noteq> [] then [trim sp] else [])
            @ [''Your previous response was invalid.'',
               ''Return ONLY corrected JSON.'',
               ''Return ONLY a valid JSON value that can be parsed by JSON.parse().\<newline>''
               @ ''Do not wrap the JSON in Markdown fences.\<newline>''
               @ ''The JSON MUST conform to this TypeScript definition:\<newline>''
               @ ''```ts\<newline>'' @ schemaTs ?t @ ''\<newline>```'',
               ''Validation problems:\<newline>'' @ failure_message f]
            @ (case f of
                 Failure_schema m r jt iss \<Rightarrow> [''Schema issues:\<newline>'' @ iss]
               | _ \<Rightarrow> [])
            @ (if locked_intent (map fst (log_calls (?lg ! 0))) = [] then []
               else [''Original request context:\<newline>''
                     @ locked_intent (map fst (log_calls (?lg ! 0)))])
            @ [''Previous output:\<newline>```text\<newline>'' @ truncate ?t raw @ ''\<newline>```''])
           ''\<newline>\<newline>''"
    by auto
  with c0 fF have "raw = ''{\"ok\":1}''" "f = ?F" by simp_all
  with p have "snd ?c = join [''Your previous response was invalid.'',
               ''Return ONLY corrected JSON.'',
               STRICT_RULES ?t,
               ''Validation problems:\<newline>Output JSON did not match the schema.'',
               ''Schema issues:\<newline>- ok: Expected boolean, received number'',
               ''Original request context:\<newline>Get ok'',
               ''Previous output:\<newline>```text\<newline>{\"ok\":1}\<newline>```''] ''\<newline>\<newline>''"
    by (simp add: li tr sp STRICT_RULES_def)
  with h3 c0 fF show ?thesis by simp
qed

text \<open>
  C6 as stated fails for an output longer than \<open>maxFailureOutputChars\<close>: with the
  limit 2 and the output \<open>not json\<close>, the prompt of the retry does not contain the
  output.
\<close>

theorem corrective_prompt_contents_counterexample:
  "tunnel_maxFailureOutputChars (example_tunnel 1 2) = 2
   \<and> log_completion (snd (snd (run (example_tunnel 1 2) runner_never_valid ())) ! 0)
       = Returned ''not json'' ()
   \<and> map fst (log_calls (snd (snd (run (example_tunnel 1 2) runner_never_valid ())) ! 1))
       = [''Get ok'']
   \<and> \<not> js_includes
         (snd (hd (log_calls (snd (snd (run (example_tunnel 1 2) runner_never_valid ())) ! 1))))
         ''not json''"
  by code_simp

text \<open>
  C7, amended. For a non-negative \<open>maxFailureOutputChars\<close>, every corrective prompt
  ends with the previous-output block, and the block embeds the previous raw output in
  full with nothing added when its length is at most \<open>maxFailureOutputChars\<close>, and
  otherwise only its first \<open>maxFailureOutputChars\<close> characters followed by the
  truncation marker; the embedded text is then the full output exactly when the part
  cut off is the marker text itself.
\<close>

theorem previous_output_truncated:
  assumes "run t runner s0 = (out, fs, lg)"
    and "0 < k" and "k < length lg"
    and "(userPrompt, prompt) \<in> set (log_calls (lg ! k))"
    and "0 \<le> tunnel_maxFailureOutputChars t"
  shows "\<exists>raw s head. log_completion (lg ! (k - 1)) = Returned raw s
     \<and> prompt = head @ ''\<newline>\<newline>Previous output:\<newline>```text\<newline>''
                @ (if int (length raw) \<le> tunnel_maxFailureOutputChars t then raw
                   else take (nat (tunnel_maxFailureOutputChars t)) raw @ ''\<newline>...<truncated>'')
                @ ''\<newline>```''
     \<and> (take (nat (tunnel_maxFailureOutputChars t)) raw @ ''\<newline>...<truncated>'' = raw)
         = (drop (nat (tunnel_maxFailureOutputChars t)) raw = ''\<newline>...<truncated>'')"
proof -
  let ?M = "tunnel_maxFailureOutputChars t"
  let ?I = "locked_intent (map fst (log_calls (lg ! 0)))"
  from run_corrective_prompt [OF assms(1-4)]
  obtain raw s f where prev: "log_completion (lg ! (k - 1)) = Returned raw s"
    "failureFromRaw t raw = Some f"
    and p: "prompt = buildFixPrompt t ?I f"
    by blast
  have ne: "fix_parts_before t f @ original_context_part (trim ?I) \<noteq> []"
    by (simp add: fix_parts_before_nonempty)
  from assms(5) have tr: "truncate t raw =
      (if int (length raw) \<le> ?M then raw else take (nat ?M) raw @ ''\<newline>...<truncated>'')"
    by (simp add: truncate_def Let_def)
  have "prompt = join (fix_parts_before t f @ original_context_part (trim ?I)) ''\<newline>\<newline>''
                 @ ''\<newline>\<newline>'' @ previous_output_part t f"
    using join_snoc [OF ne] by (simp add: p buildFixPrompt_parts)
  with tr have "prompt = join (fix_parts_before t f @ original_context_part (trim ?I)) ''\<newline>\<newline>''
                @ ''\<newline>\<newline>Previous output:\<newline>```text\<newline>''
                @ (if int (length raw) \<le> ?M then raw
                   else take (nat ?M) raw @ ''\<newline>...<truncated>'')
                @ ''\<newline>```''"
    by (simp add: previous_output_part_def failureFromRaw_raw [OF prev(2)])
  moreover have "(take (nat ?M) raw @ ''\<newline>...<truncated>'' = raw)
         = (drop (nat ?M) raw = ''\<newline>...<truncated>'')"
    by (metis append_take_drop_id same_append_eq)
  ultimately show ?thesis using prev(1) by blast
qed

theorem previous_output_truncated_witness:
  "0 \<le> tunnel_maxFailureOutputChars (example_tunnel 1 2)
   \<and> 1 < length (snd (snd (run (example_tunnel 1 2) runner_never_valid ())))
   \<and> log_completion (snd (snd (run (example_tunnel 1 2) runner_never_valid ())) ! 0)
       = Returned ''not json'' ()
   \<and> (\<exists>head. snd (hd (log_calls (snd (snd (run (example_tunnel 1 2) runner_never_valid ())) ! 1)))
         = head @ ''\<newline>\<newline>Previous output:\<newline>```text\<newline>no\<newline>...<truncated>\<newline>```'')"
proof -
  let ?t = "example_tunnel 1 2"
  let ?r = "run ?t runner_never_valid ()"
  let ?lg = "snd (snd ?r)"
  let ?c = "hd (log_calls (?lg ! 1))"
  have m: "tunnel_maxFailureOutputChars ?t = 2"
    by (simp add: example_tunnel_def tunnel_maxFailureOutputChars_def)
  then have h5: "0 \<le> tunnel_maxFailureOutputChars ?t" by simp
  have h1: "?r = (fst ?r, fst (snd ?r), ?lg)" by simp
  have h3: "1 < length ?lg" by code_simp
  have "log_calls (?lg ! 1) \<noteq> []" by code_simp
  then have h4: "(fst ?c, snd ?c) \<in> set (log_calls (?lg ! 1))" by simp
  have c0: "log_completion (?lg ! 0) = Returned ''not json'' ()" by code_simp
  from previous_output_truncated [OF h1 _ h3 h4 h5]
  obtain raw s head where "log_completion (?lg ! 0) = Returned raw s"
    and p: "snd ?c = head @ ''\<newline>\<newline>Previous output:\<newline>```text\<newline>''
                @ (if int (length raw) \<le> tunnel_maxFailureOutputChars ?t then raw
                   else take (nat (tunnel_maxFailureOutputChars ?t)) raw @ ''\<newline>...<truncated>'')
                @ ''\<newline>```''"
    by auto
  with c0 have "raw = ''not json''" by simp
  with p m have "snd ?c = head @ ''\<newline>\<newline>Previous output:\<newline>```text\<newline>no\<newline>...<truncated>\<newline>```''"
    by simp
  with h5 h3 c0 show ?thesis by blast
qed

text \<open>
  C7 as stated fails: with the limit 10, an output of ten characters followed by the
  marker text is longer than the limit, and the prompt of the retry contains it in
  full.
\<close>

theorem previous_output_truncated_counterexample:
  "tunnel_maxFailureOutputChars (example_tunnel 1 10) = 10
   \<and> log_completion (snd (snd (run (example_tunnel 1 10) runner_marker_text ())) ! 0)
       = Returned ''0123456789\<newline>...<truncated>'' ()
   \<and> 10 < length ''0123456789\<newline>...<truncated>''
   \<and> js_includes
         (snd (hd (log_calls (snd (snd (run (example_tunnel 1 10) runner_marker_text ())) ! 1))))
         ''0123456789\<newline>...<truncated>''"
  by code_simp

text \<open>
  C3. In a run whose attempt 0 calls \<open>injectSchema\<close> once, with \<open>userText0\<close>, every
  prompt returned on an attempt \<open>k > 0\<close> carries \<open>trim userText0\<close> as its
  original-context text, whatever text is passed to \<open>injectSchema\<close> on that attempt:
  the prompt is built from the previous failure and \<open>trim userText0\<close> alone.
\<close>

theorem locked_intent_single_call:
  assumes "run t runner s0 = (out, fs, lg)"
    and "map fst (log_calls (lg ! 0)) = [userText0]"
    and "0 < k" and "k < length lg"
    and "(userText, prompt) \<in> set (log_calls (lg ! k))"
  shows "\<exists>raw s f. log_completion (lg ! (k - 1)) = Returned raw s \<and> failureFromRaw t raw = Some f
     \<and> prompt = join (fix_parts_before t f @ original_context_part (trim userText0)
                       @ [previous_output_part t f]) ''\<newline>\<newline>''"
  using run_corrective_prompt [OF assms(1,3,4,5)]
  by (simp add: assms(2) buildFixPrompt_parts locked_intent_single trim_trim)

theorem locked_intent_single_call_witness:
  \<open>map fst (log_calls (snd (snd (run (example_tunnel 2 4000) runner_changes_intent ())) ! 0))
     = [''  First intent '']
   \<and> 1 < length (snd (snd (run (example_tunnel 2 4000) runner_changes_intent ())))
   \<and> fst (hd (log_calls (snd (snd (run (example_tunnel 2 4000) runner_changes_intent ())) ! 1)))
       = ''Different intent''
   \<and> snd (hd (log_calls (snd (snd (run (example_tunnel 2 4000) runner_changes_intent ())) ! 1)))
       = join (fix_parts_before (example_tunnel 2 4000)
                 (Failure_schema ''Output JSON did not match the schema.'' ''{"ok":1}'' ''{"ok":1}''
                    ''- ok: Expected boolean, received number'')
               @ [''Original request context:\<newline>First intent'']
               @ [previous_output_part (example_tunnel 2 4000)
                    (Failure_schema ''Output JSON did not match the schema.'' ''{"ok":1}''
                       ''{"ok":1}'' ''- ok: Expected boolean, received number'')])
           ''\<newline>\<newline>''\<close>
proof -
  let ?t = "example_tunnel 2 4000"
  let ?r = "run ?t runner_changes_intent ()"
  let ?lg = "snd (snd ?r)"
  let ?c = "hd (log_calls (?lg ! 1))"
  let ?F = \<open>Failure_schema ''Output JSON did not match the schema.'' ''{"ok":1}'' ''{"ok":1}''
                 ''- ok: Expected boolean, received number''\<close>
  have h1: "?r = (fst ?r, fst (snd ?r), ?lg)" by simp
  have h2: "map fst (log_calls (?lg ! 0)) = [''  First intent '']" by code_simp
  have h4: "1 < length ?lg" by code_simp
  have "log_calls (?lg ! 1) \<noteq> []" by code_simp
  then have h5: "(fst ?c, snd ?c) \<in> set (log_calls (?lg ! 1))" by simp
  have u: "fst ?c = ''Different intent''" by code_simp
  have c0: \<open>log_completion (?lg ! 0) = Returned ''{"ok":1}'' ()\<close> by code_simp
  have fF: \<open>failureFromRaw ?t ''{"ok":1}'' = Some ?F\<close> by code_simp
  have tr: "trim ''  First intent '' = ''First intent''" by code_simp
  from locked_intent_single_call [OF h1 h2 _ h4 h5]
  obtain raw s f where "log_completion (?lg ! 0) = Returned raw s" "failureFromRaw ?t raw = Some f"
    and p: "snd ?c = join (fix_parts_before ?t f @ original_context_part (trim ''  First intent '')
                       @ [previous_output_part ?t f]) ''\<newline>\<newline>''"
    by auto
  with c0 fF have "f = ?F" by simp
  with p have "snd ?c = join (fix_parts_before ?t ?F @ [''Original request context:\<newline>First intent'']
                       @ [previous_output_part ?t ?F]) ''\<newline>\<newline>''"
    by (simp add: tr original_context_part_def)
  with h2 h4 u show ?thesis by simp
qed

text \<open>
  C10. Whatever number of calls attempt 0 makes, every corrective prompt on an attempt
  \<open>k > 0\<close> carries the trimmed argument of the last call of attempt 0 whose trimmed
  argument is not empty; when attempt 0 has no such call the prompt has no
  original-context part at all.
\<close>

theorem locked_intent_last_nonempty_call:
  assumes "run t runner s0 = (out, fs, lg)"
    and "0 < k" and "k < length lg"
    and "(userText, prompt) \<in> set (log_calls (lg ! k))"
  shows "\<exists>raw s f. log_completion (lg ! (k - 1)) = Returned raw s \<and> failureFromRaw t raw = Some f
     \<and> prompt = join (fix_parts_before t f
                       @ original_context_part (locked_intent (map fst (log_calls (lg ! 0))))
                       @ [previous_output_part t f]) ''\<newline>\<newline>''
     \<and> ((\<forall>u \<in> set (map fst (log_calls (lg ! 0))). trim u = []) \<longrightarrow>
          prompt = join (fix_parts_before t f @ [previous_output_part t f]) ''\<newline>\<newline>'')"
proof -
  from run_corrective_prompt [OF assms]
  obtain raw s f where prev: "log_completion (lg ! (k - 1)) = Returned raw s"
    "failureFromRaw t raw = Some f"
    and p: "prompt = join (fix_parts_before t f
                       @ original_context_part (locked_intent (map fst (log_calls (lg ! 0))))
                       @ [previous_output_part t f]) ''\<newline>\<newline>''"
    by (auto simp: buildFixPrompt_parts trim_locked_intent)
  have "prompt = join (fix_parts_before t f @ [previous_output_part t f]) ''\<newline>\<newline>''"
    if "\<forall>u \<in> set (map fst (log_calls (lg ! 0))). trim u = []"
    using p locked_intent_empty [OF that] by (simp add: original_context_part_def)
  with prev p show ?thesis by blast
qed

theorem locked_intent_last_nonempty_call_witness:
  \<open>map fst (log_calls (snd (snd (run (example_tunnel 2 4000) runner_many_calls ())) ! 0))
     = [''first'', '' second '', ''   '']
   \<and> locked_intent [''first'', '' second '', ''   ''] = ''second''
   \<and> 1 < length (snd (snd (run (example_tunnel 2 4000) runner_many_calls ())))
   \<and> snd (hd (log_calls (snd (snd (run (example_tunnel 2 4000) runner_many_calls ())) ! 1)))
       = join (fix_parts_before (example_tunnel 2 4000)
                 (Failure_schema ''Output JSON did not match the schema.'' ''{"ok":1}'' ''{"ok":1}''
                    ''- ok: Expected boolean, received number'')
               @ [''Original request context:\<newline>second'']
               @ [previous_output_part (example_tunnel 2 4000)
                    (Failure_schema ''Output JSON did not match the schema.'' ''{"ok":1}''
                       ''{"ok":1}'' ''- ok: Expected boolean, received number'')])
           ''\<newline>\<newline>''\<close>
proof -
  let ?t = "example_tunnel 2 4000"
  let ?r = "run ?t runner_many_calls ()"
  let ?lg = "snd (snd ?r)"
  let ?c = "hd (log_calls (?lg ! 1))"
  let ?F = \<open>Failure_schema ''Output JSON did not match the schema.'' ''{"ok":1}'' ''{"ok":1}''
                 ''- ok: Expected boolean, received number''\<close>
  have h1: "?r = (fst ?r, fst (snd ?r), ?lg)" by simp
  have us: "map fst (log_calls (?lg ! 0)) = [''first'', '' second '', ''   '']" by code_simp
  have li: "locked_intent [''first'', '' second '', ''   ''] = ''second''" by code_simp
  have h3: "1 < length ?lg" by code_simp
  have "log_calls (?lg ! 1) \<noteq> []" by code_simp
  then have h4: "(fst ?c, snd ?c) \<in> set (log_calls (?lg ! 1))" by simp
  have c0: \<open>log_completion (?lg ! 0) = Returned ''{"ok":1}'' ()\<close> by code_simp
  have fF: \<open>failureFromRaw ?t ''{"ok":1}'' = Some ?F\<close> by code_simp
  from locked_intent_last_nonempty_call [OF h1 _ h3 h4]
  obtain raw s f where "log_completion (?lg ! 0) = Returned raw s" "failureFromRaw ?t raw = Some f"
    and p: "snd ?c = join (fix_parts_before ?t f
                       @ original_context_part (locked_intent (map fst (log_calls (?lg ! 0))))
                       @ [previous_output_part ?t f]) ''\<newline>\<newline>''"
    by auto
  with c0 fF have "f = ?F" by simp
  with p have "snd ?c = join (fix_parts_before ?t ?F @ [''Original request context:\<newline>second'']
                       @ [previous_output_part ?t ?F]) ''\<newline>\<newline>''"
    by (simp add: us li original_context_part_def)
  with us li h3 show ?thesis by simp
qed

section \<open>Every attempt is an invocation of the runner\<close>

lemma run_loop_retry_invocations:
  "run_loop t runner a fs0 (Some f0) intent s = (out, fs, lg) \<Longrightarrow> 0 < a \<Longrightarrow> k < length lg \<Longrightarrow>
     call_runner (injectSchema t (a + int k) (ctx_lastFailure (log_context (lg ! k))))
       (runner (runner_state s lg k) (log_context (lg ! k))) intent
     = (log_completion (lg ! k), intent, log_calls (lg ! k))"
proof (induction lg arbitrary: a fs0 f0 s k)
  case Nil
  then show ?case by simp
next
  case (Cons entry lg)
  from Cons.prems(2) have a: "a \<noteq> 0" by simp
  from Cons.prems(1) show ?case
  proof (cases rule: run_loop_cases)
    case exhausted
    then show ?thesis by simp
  next
    case (threw e intent' calls)
    with call_runner_retry [OF a threw(2)] Cons.prems(3) show ?thesis by simp
  next
    case (type_error intent' calls)
    with call_runner_retry [OF a type_error(2)] Cons.prems(3) show ?thesis by simp
  next
    case (valid raw s' intent' calls span v d)
    with call_runner_retry [OF a valid(2)] Cons.prems(3) show ?thesis by simp
  next
    case (retry raw s' intent' calls f lg')
    note cr = call_runner_retry [OF a retry(2)]
    show ?thesis
    proof (cases k)
      case 0
      with retry cr show ?thesis by simp
    next
      case (Suc j)
      from Cons.prems(2) have "0 < a + 1" by simp
      with Suc retry cr Cons.prems(3) Cons.IH [of "a + 1" "fs0 @ [f]" f s' j]
      show ?thesis by (simp add: ac_simps)
    qed
  qed
qed

lemma run_invocations:
  assumes "run t runner s0 = (out, fs, lg)" "k < length lg"
  shows "call_runner (injectSchema t (int k) (ctx_lastFailure (log_context (lg ! k))))
           (runner (runner_state s0 lg k) (log_context (lg ! k)))
           (if k = 0 then [] else locked_intent (map fst (log_calls (lg ! 0))))
         = (log_completion (lg ! k), locked_intent (map fst (log_calls (lg ! 0))),
            log_calls (lg ! k))"
proof -
  from assms(1) have rl: "run_loop t runner 0 [] None [] s0 = (out, fs, lg)"
    by (simp add: run_def)
  from rl show ?thesis
  proof (cases rule: run_loop_cases)
    case exhausted
    with assms(2) show ?thesis by simp
  next
    case (threw e intent' calls)
    with call_runner_first_attempt [OF threw(2)] assms(2) show ?thesis
      by (simp add: foldl_locked_intent)
  next
    case (type_error intent' calls)
    with call_runner_first_attempt [OF type_error(2)] assms(2) show ?thesis
      by (simp add: foldl_locked_intent)
  next
    case (valid raw s' intent' calls span v d)
    with call_runner_first_attempt [OF valid(2)] assms(2) show ?thesis
      by (simp add: foldl_locked_intent)
  next
    case (retry raw s' intent' calls f lg')
    from call_runner_first_attempt [OF retry(2)]
    have intent': "intent' = locked_intent (map fst calls)"
      by (simp add: foldl_locked_intent)
    show ?thesis
    proof (cases k)
      case 0
      with retry intent' show ?thesis by simp
    next
      case (Suc j)
      with retry(5) assms(2) have j: "j < length lg'" by simp
      from run_loop_retry_invocations [OF retry(4) _ j] Suc retry(5) intent'
      show ?thesis by (simp add: ac_simps)
    qed
  qed
qed

text \<open>
  C1. With \<open>maxRetries \<ge> 0\<close> and a runner whose output fails extraction or validation
  on every attempt, \<open>run\<close> invokes the runner exactly \<open>maxRetries + 1\<close> times and then
  fails with \<open>TunnelMaxRetriesError\<close>, whose message states the attempt count and whose
  failure list has exactly \<open>maxRetries + 1\<close> records, the record of attempt \<open>k\<close> at
  position \<open>k\<close>; with \<open>maxRetries = 1\<close> the list has exactly 2 entries. Attempt \<open>k\<close>
  is the invocation of the given runner, in the state its previous invocation left, on
  the context with attempt number \<open>k\<close> and the failure of attempt \<open>k - 1\<close>, with the
  \<open>injectSchema\<close> of that attempt; the text it returns there is the one whose failure
  is record \<open>k\<close>.
\<close>

theorem run_exhausts_attempts:
  assumes "0 \<le> tunnel_maxRetries t"
    and "run t runner s0 = (out, fs, lg)"
    and "list_all (attempt_failed t) lg"
  shows "int (length lg) = tunnel_maxRetries t + 1
     \<and> out = TunnelMaxRetriesError
               (''Failed to produce valid output after '' @ show_int (tunnel_maxRetries t + 1)
                @ '' attempts.'') fs
     \<and> int (length fs) = tunnel_maxRetries t + 1
     \<and> (\<forall>k<length lg.
           log_context (lg ! k)
             = \<lparr>ctx_attempt = int k, ctx_maxRetries = tunnel_maxRetries t,
                ctx_lastFailure = (if k = 0 then None else Some (fs ! (k - 1)))\<rparr>
         \<and> (\<exists>raw s'.
               call_runner
                 (injectSchema t (int k) (if k = 0 then None else Some (fs ! (k - 1))))
                 (runner (runner_state s0 lg k) (log_context (lg ! k)))
                 (if k = 0 then [] else locked_intent (map fst (log_calls (lg ! 0))))
               = (Returned raw s', locked_intent (map fst (log_calls (lg ! 0))),
                  log_calls (lg ! k))
             \<and> log_completion (lg ! k) = Returned raw s'
             \<and> failureFromRaw t raw = Some (fs ! k)))
     \<and> (tunnel_maxRetries t = 1 \<longrightarrow> length fs = 2)"
proof -
  from assms(2) have rl: "run_loop t runner 0 [] None [] s0 = (out, fs, lg)"
    by (simp add: run_def)
  from run_loop_all_failed [OF rl assms(3)] assms(1)
  have out: "out = TunnelMaxRetriesError (max_retries_message t) fs"
    and len: "int (length lg) = tunnel_maxRetries t + 1"
    by simp_all
  from run_loop_failures [OF rl] have fs: "fs = concat (map (attempt_failures t) lg)"
    by simp
  from failed_attempts_failures [OF assms(3)] fs
  have lfs: "length fs = length lg"
    and each: "\<And>k. k < length lg \<Longrightarrow> \<exists>raw s. log_completion (lg ! k) = Returned raw s
                  \<and> failureFromRaw t raw = Some (fs ! k)"
    by simp_all
  have lf: "ctx_lastFailure (log_context (lg ! k)) = (if k = 0 then None else Some (fs ! (k - 1)))"
    if "k < length lg" for k
  proof (cases k)
    case 0
    with that run_loop_first_context [OF rl] show ?thesis by auto
  next
    case (Suc j)
    with that have "Suc j < length lg" by simp
    from run_loop_last_failure_chain [OF rl this]
    obtain raw s' f where "log_completion (lg ! j) = Returned raw s'" "failureFromRaw t raw = Some f"
      "ctx_lastFailure (log_context (lg ! Suc j)) = Some f"
      by blast
    moreover from each [of j] that Suc
    obtain raw2 s2 where "log_completion (lg ! j) = Returned raw2 s2"
      "failureFromRaw t raw2 = Some (fs ! j)"
      by auto
    ultimately show ?thesis using Suc by simp
  qed
  have ctx: "log_context (lg ! k)
             = \<lparr>ctx_attempt = int k, ctx_maxRetries = tunnel_maxRetries t,
                ctx_lastFailure = (if k = 0 then None else Some (fs ! (k - 1)))\<rparr>"
    if "k < length lg" for k
    using run_loop_attempts [OF rl that] lf [OF that] by simp
  have inv: "\<exists>raw s'.
               call_runner
                 (injectSchema t (int k) (if k = 0 then None else Some (fs ! (k - 1))))
                 (runner (runner_state s0 lg k) (log_context (lg ! k)))
                 (if k = 0 then [] else locked_intent (map fst (log_calls (lg ! 0))))
               = (Returned raw s', locked_intent (map fst (log_calls (lg ! 0))),
                  log_calls (lg ! k))
             \<and> log_completion (lg ! k) = Returned raw s'
             \<and> failureFromRaw t raw = Some (fs ! k)"
    if "k < length lg" for k
    using run_invocations [OF assms(2) that] each [OF that] lf [OF that] by auto
  from out len lfs ctx inv show ?thesis
    by (simp add: max_retries_message_def)
qed

theorem run_exhausts_attempts_witness:
  "0 \<le> tunnel_maxRetries (example_tunnel 1 4000)
   \<and> list_all (attempt_failed (example_tunnel 1 4000))
        (snd (snd (run (example_tunnel 1 4000) runner_never_valid ())))
   \<and> map log_completion (snd (snd (run (example_tunnel 1 4000) runner_never_valid ())))
       = [Returned ''not json'' (), Returned ''not json'' ()]
   \<and> map log_context (snd (snd (run (example_tunnel 1 4000) runner_never_valid ())))
       = [\<lparr>ctx_attempt = 0, ctx_maxRetries = 1, ctx_lastFailure = None\<rparr>,
          \<lparr>ctx_attempt = 1, ctx_maxRetries = 1,
           ctx_lastFailure =
             Some (Failure_no_json ''No JSON object/array found in model output.'' ''not json'')\<rparr>]
   \<and> fst (snd (run (example_tunnel 1 4000) runner_never_valid ()))
       = [Failure_no_json ''No JSON object/array found in model output.'' ''not json'',
          Failure_no_json ''No JSON object/array found in model output.'' ''not json'']
   \<and> fst (run (example_tunnel 1 4000) runner_never_valid ())
       = TunnelMaxRetriesError ''Failed to produce valid output after 2 attempts.''
           [Failure_no_json ''No JSON object/array found in model output.'' ''not json'',
            Failure_no_json ''No JSON object/array found in model output.'' ''not json'']
   \<and> call_runner
         (injectSchema (example_tunnel 1 4000) 1
            (Some (Failure_no_json ''No JSON object/array found in model output.'' ''not json'')))
         (runner_never_valid ()
            \<lparr>ctx_attempt = 1, ctx_maxRetries = 1,
             ctx_lastFailure =
               Some (Failure_no_json ''No JSON object/array found in model output.'' ''not json'')\<rparr>)
         ''Get ok''
       = (Returned ''not json'' (), ''Get ok'',
          log_calls (snd (snd (run (example_tunnel 1 4000) runner_never_valid ())) ! 1))"
proof -
  let ?t = "example_tunnel 1 4000"
  let ?r = "run ?t runner_never_valid ()"
  let ?lg = "snd (snd ?r)"
  let ?F = "Failure_no_json ''No JSON object/array found in model output.'' ''not json''"
  have m: "tunnel_maxRetries ?t = 1"
    by (simp add: example_tunnel_def tunnel_maxRetries_def)
  then have h1: "0 \<le> tunnel_maxRetries ?t" by simp
  have h2: "?r = (fst ?r, fst (snd ?r), ?lg)" by simp
  have h3: "list_all (attempt_failed ?t) ?lg" by code_simp
  have sh: "show_int 2 = ''2''" by code_simp
  have cs: "map log_completion ?lg = [Returned ''not json'' (), Returned ''not json'' ()]"
    by code_simp
  have c1: "log_completion (?lg ! 1) = Returned ''not json'' ()" by code_simp
  have ctxs: "map log_context ?lg
      = [\<lparr>ctx_attempt = 0, ctx_maxRetries = 1, ctx_lastFailure = None\<rparr>,
         \<lparr>ctx_attempt = 1, ctx_maxRetries = 1, ctx_lastFailure = Some ?F\<rparr>]"
    by code_simp
  have ctx1: "log_context (?lg ! 1)
      = \<lparr>ctx_attempt = 1, ctx_maxRetries = 1, ctx_lastFailure = Some ?F\<rparr>"
    by code_simp
  have fs: "fst (snd ?r) = [?F, ?F]" by code_simp
  have li: "locked_intent (map fst (log_calls (?lg ! 0))) = ''Get ok''" by code_simp
  have k1: "1 < length ?lg" by code_simp
  note th = run_exhausts_attempts [OF h1 h2 h3]
  note each = th [THEN conjunct2, THEN conjunct2, THEN conjunct2, THEN conjunct1, rule_format, OF k1]
  from each obtain raw s' where
    cr: "call_runner
           (injectSchema ?t (int 1) (if (1::nat) = 0 then None else Some (fst (snd ?r) ! (1 - 1))))
           (runner_never_valid (runner_state () ?lg 1) (log_context (?lg ! 1)))
           (if (1::nat) = 0 then [] else locked_intent (map fst (log_calls (?lg ! 0))))
         = (Returned raw s', locked_intent (map fst (log_calls (?lg ! 0))), log_calls (?lg ! 1))"
    and c: "log_completion (?lg ! 1) = Returned raw s'"
    by blast
  from c c1 have raw: "raw = ''not json''" by simp
  have inv: "call_runner (injectSchema ?t 1 (Some ?F))
         (runner_never_valid ()
            \<lparr>ctx_attempt = 1, ctx_maxRetries = 1, ctx_lastFailure = Some ?F\<rparr>) ''Get ok''
       = (Returned ''not json'' (), ''Get ok'', log_calls (?lg ! 1))"
    using cr ctx1 by (simp add: raw fs li)
  from th [THEN conjunct2, THEN conjunct1]
  have "fst ?r = TunnelMaxRetriesError ''Failed to produce valid output after 2 attempts.''
                  (fst (snd ?r))"
    by (simp add: m sh)
  with h1 h3 cs ctxs fs inv show ?thesis by simp
qed

end
